theory Spec2Isabelle
  imports Complex_Main "HOL-Library.Log_Nat"
begin

section \<open>The moving integrator reference model\<close>

text \<open>
  A shallow embedding of \<^verbatim>\<open>src/testbench/model/moving_integrator_model.py\<close>:
  \<^verbatim>\<open>moving_integrator\<close>, the convolution based floating model, and
  \<^verbatim>\<open>fpga_moving_integrator\<close>, the streaming model of the hardware.

  Number model. Python integers are \<open>int\<close>; the samples, \<^verbatim>\<open>integration\<close> and
  \<^verbatim>\<open>extra_bits\<close> are Python integers, as the test bench passes them. In \<^verbatim>\<open>fpga_moving_integrator\<close> the shift
  register is seeded by \<^verbatim>\<open>np.zeros\<close>, so the accumulator is an \<^verbatim>\<open>np.float64\<close> from the
  first sample on and every later operation is a binary64 operation: these are modelled
  as such, a binary64 value being a rational (or an infinity or a NaN) and every operation
  rounding its exact result to nearest, ties to even, with the exceptions Python raises
  (\<^verbatim>\<open>OverflowError\<close>, \<^verbatim>\<open>ZeroDivisionError\<close>, \<^verbatim>\<open>ValueError\<close>) as error values. The
  version of Python is 3 (\<^verbatim>\<open>/\<close> is true division, \<^verbatim>\<open>round\<close> rounds half to even).
  Memory limits are not modelled.

  In \<^verbatim>\<open>moving_integrator\<close> the values of the convolution are taken as exact rationals;
  what is stated about that function is its errors and the length of its result, which
  do not depend on the values.
\<close>

subsection \<open>Python and numpy primitives\<close>

datatype py_error = IndexError | ValueError | OverflowError | ZeroDivisionError

text \<open>\<^verbatim>\<open>np.zeros(n)\<close> and \<^verbatim>\<open>np.ones(n)\<close>: an array of \<open>n\<close> numbers; a negative
  dimension raises \<^verbatim>\<open>ValueError\<close>.\<close>

definition np_zeros :: "int \<Rightarrow> py_error + rat list" where
  "np_zeros n = (if n < 0 then Inl ValueError else Inr (replicate (nat n) 0))"

definition np_ones :: "int \<Rightarrow> py_error + rat list" where
  "np_ones n = (if n < 0 then Inl ValueError else Inr (replicate (nat n) 1))"

text \<open>\<^verbatim>\<open>np.convolve(a, v)\<close> in its default mode \<^verbatim>\<open>'full'\<close>: numpy raises
  \<^verbatim>\<open>ValueError\<close> when either operand is empty; otherwise element \<open>k\<close> of the result
  is the sum of \<open>a[i] * v[k - i]\<close> over all \<open>i\<close> where both indices are in range, for
  \<open>k\<close> from \<open>0\<close> to \<open>len(a) + len(v) - 2\<close>. (numpy swaps the operands when \<open>v\<close> is the
  longer one; the sum is the same.)\<close>

definition conv_at :: "rat list \<Rightarrow> rat list \<Rightarrow> nat \<Rightarrow> rat" where
  "conv_at a v k =
     sum_list (map (\<lambda>i. if i \<le> k \<and> k - i < length v then a ! i * v ! (k - i) else 0)
                   [0..<length a])"

definition np_convolve :: "rat list \<Rightarrow> rat list \<Rightarrow> py_error + rat list" where
  "np_convolve a v =
     (if a = [] \<or> v = [] then Inl ValueError
      else Inr (map (conv_at a v) [0..<length a + length v - 1]))"

text \<open>\<^verbatim>\<open>deque.pop()\<close> removes and returns the rightmost element and raises
  \<^verbatim>\<open>IndexError\<close> on an empty deque; \<^verbatim>\<open>deque.appendleft(x)\<close> inserts on the left.
  A deque is a list whose head is its left end.\<close>

definition deque_pop :: "'a list \<Rightarrow> py_error + ('a \<times> 'a list)" where
  "deque_pop d = (if d = [] then Inl IndexError else Inr (last d, butlast d))"

definition deque_appendleft :: "'a \<Rightarrow> 'a list \<Rightarrow> 'a list" where
  "deque_appendleft x d = x # d"

text \<open>The number \<open>2^e\<close> for an integer \<open>e\<close> of either sign (what Python makes of
  \<^verbatim>\<open>2**extra_bits\<close> is \<open>py_pow2\<close> below).\<close>

definition pow2 :: "int \<Rightarrow> rat" where
  "pow2 e = (if 0 \<le> e then 2 ^ nat e else 1 / 2 ^ nat (- e))"

text \<open>Python 3's built-in \<^verbatim>\<open>round\<close> of a finite float to an integer: to the nearest
  integer, a fractional part of exactly one half going to the even neighbour.\<close>

definition py_round :: "rat \<Rightarrow> int" where
  "py_round x =
     (let f = \<lfloor>x\<rfloor>; d = x - of_int f
      in if d < 1 / 2 then f
         else if 1 / 2 < d then f + 1
         else if even f then f else f + 1)"

subsection \<open>\<^verbatim>\<open>moving_integrator\<close>\<close>

text \<open>The kernel is \<^verbatim>\<open>np.ones(integration)/integration\<close>, the slice
  \<^verbatim>\<open>moving_mean[0:len(samples)]\<close> is \<open>take\<close>. The file
  \<^verbatim>\<open>src/testbench/moving_integrator.py\<close> holds the same function, word for word.\<close>

definition moving_integrator :: "rat list \<Rightarrow> int \<Rightarrow> bool \<Rightarrow> py_error + rat list" where
  "moving_integrator samples integration trim_output =
     (case np_ones integration of
        Inl e \<Rightarrow> Inl e
      | Inr ones \<Rightarrow>
          (case np_convolve samples (map (\<lambda>x. x / of_int integration) ones) of
             Inl e \<Rightarrow> Inl e
           | Inr moving_mean \<Rightarrow>
               Inr (if trim_output then take (length samples) moving_mean
                    else moving_mean)))"

subsection \<open>binary64\<close>

text \<open>A binary64 value: a finite number, an infinity or a NaN. The sign of zero is not
  kept (\<^verbatim>\<open>-0.0 == 0.0\<close> in Python, and no divisor below can be a negative zero).\<close>

datatype f64 = Finite rat | PosInf | NegInf | NaN

text \<open>The binary exponent of a non-zero rational: \<open>2^e \<le> |x| < 2^(e+1)\<close>.\<close>

definition expo :: "rat \<Rightarrow> int" where
  "expo x =
     (let (p, q) = quotient_of \<bar>x\<bar>; d = bitlen p - bitlen q
      in if pow2 d \<le> \<bar>x\<bar> then d else d - 1)"

text \<open>Rounding to binary64, to nearest with ties to the even significand: first to 53
  bits of significand with least exponent \<open>-1022\<close> (gradual underflow below it), then
  overflow to an infinity when the rounded magnitude reaches \<open>2^1024\<close>.\<close>

definition round53 :: "rat \<Rightarrow> rat" where
  "round53 x =
     (if x = 0 then 0
      else let u = pow2 (max (expo x) (- 1022) - 52)
           in of_int (py_round (x / u)) * u)"

definition fl :: "rat \<Rightarrow> f64" where
  "fl x =
     (let y = round53 x
      in if pow2 1024 \<le> y then PosInf
         else if y \<le> - pow2 1024 then NegInf
         else Finite y)"

fun f64_neg :: "f64 \<Rightarrow> f64" where
  "f64_neg (Finite a) = Finite (- a)"
| "f64_neg PosInf = NegInf"
| "f64_neg NegInf = PosInf"
| "f64_neg NaN = NaN"

fun f64_add :: "f64 \<Rightarrow> f64 \<Rightarrow> f64" where
  "f64_add (Finite a) (Finite b) = fl (a + b)"
| "f64_add NaN y = NaN"
| "f64_add x NaN = NaN"
| "f64_add PosInf NegInf = NaN"
| "f64_add NegInf PosInf = NaN"
| "f64_add PosInf y = PosInf"
| "f64_add NegInf y = NegInf"
| "f64_add x y = y"

definition f64_sub :: "f64 \<Rightarrow> f64 \<Rightarrow> f64" where
  "f64_sub x y = f64_add x (f64_neg y)"

fun f64_mul :: "f64 \<Rightarrow> f64 \<Rightarrow> f64" where
  "f64_mul (Finite a) (Finite b) = fl (a * b)"
| "f64_mul NaN y = NaN"
| "f64_mul x NaN = NaN"
| "f64_mul (Finite a) y = (if a = 0 then NaN else if 0 < a then y else f64_neg y)"
| "f64_mul x (Finite b) = (if b = 0 then NaN else if 0 < b then x else f64_neg x)"
| "f64_mul PosInf y = y"
| "f64_mul NegInf y = f64_neg y"

text \<open>IEEE division, as numpy performs it: a zero divisor gives an infinity or a NaN (and
  a warning), never an exception.\<close>

fun f64_div :: "f64 \<Rightarrow> f64 \<Rightarrow> f64" where
  "f64_div (Finite a) (Finite b) =
     (if b = 0 then (if a = 0 then NaN else if 0 < a then PosInf else NegInf)
      else fl (a / b))"
| "f64_div NaN y = NaN"
| "f64_div x NaN = NaN"
| "f64_div (Finite a) y = Finite 0"
| "f64_div x (Finite b) = (if 0 \<le> b then x else f64_neg x)"
| "f64_div x y = NaN"

fun f64_floor :: "f64 \<Rightarrow> f64" where
  "f64_floor (Finite a) = Finite (of_int \<lfloor>a\<rfloor>)"
| "f64_floor x = x"

text \<open>Python's \<^verbatim>\<open><=\<close> on floats.\<close>

fun f64_le :: "f64 \<Rightarrow> f64 \<Rightarrow> bool" where
  "f64_le NaN y = False"
| "f64_le x NaN = False"
| "f64_le NegInf y = True"
| "f64_le x PosInf = True"
| "f64_le (Finite a) (Finite b) = (a \<le> b)"
| "f64_le x y = False"

subsection \<open>Python numbers\<close>

text \<open>The numbers the function handles: Python integers (unbounded), Python floats and
  \<^verbatim>\<open>np.float64\<close> scalars. An arithmetic operation on two integers is exact; otherwise
  both operands become binary64 (an integer that rounds beyond the binary64 range raises
  \<^verbatim>\<open>OverflowError\<close>) and the result is an \<^verbatim>\<open>np.float64\<close> if either operand is one.\<close>

datatype pynum = PyInt int | PyFloat f64 | NpFloat f64

definition py_bind :: "py_error + 'a \<Rightarrow> ('a \<Rightarrow> py_error + 'b) \<Rightarrow> py_error + 'b" where
  "py_bind m f = (case m of Inl e \<Rightarrow> Inl e | Inr x \<Rightarrow> f x)"

definition int_to_float :: "int \<Rightarrow> py_error + f64" where
  "int_to_float z = (case fl (of_int z) of Finite y \<Rightarrow> Inr (Finite y) | _ \<Rightarrow> Inl OverflowError)"

fun to_f64 :: "pynum \<Rightarrow> py_error + f64" where
  "to_f64 (PyInt z) = int_to_float z"
| "to_f64 (PyFloat x) = Inr x"
| "to_f64 (NpFloat x) = Inr x"

fun is_np :: "pynum \<Rightarrow> bool" where
  "is_np (NpFloat x) = True"
| "is_np a = False"

definition float_op :: "(f64 \<Rightarrow> f64 \<Rightarrow> f64) \<Rightarrow> pynum \<Rightarrow> pynum \<Rightarrow> py_error + pynum" where
  "float_op f a b =
     py_bind (to_f64 a) (\<lambda>x.
     py_bind (to_f64 b) (\<lambda>y.
       Inr (if is_np a \<or> is_np b then NpFloat (f x y) else PyFloat (f x y))))"

fun py_add :: "pynum \<Rightarrow> pynum \<Rightarrow> py_error + pynum" where
  "py_add (PyInt a) (PyInt b) = Inr (PyInt (a + b))"
| "py_add a b = float_op f64_add a b"

fun py_sub :: "pynum \<Rightarrow> pynum \<Rightarrow> py_error + pynum" where
  "py_sub (PyInt a) (PyInt b) = Inr (PyInt (a - b))"
| "py_sub a b = float_op f64_sub a b"

fun py_mul :: "pynum \<Rightarrow> pynum \<Rightarrow> py_error + pynum" where
  "py_mul (PyInt a) (PyInt b) = Inr (PyInt (a * b))"
| "py_mul a b = float_op f64_mul a b"

text \<open>True division \<^verbatim>\<open>/\<close>. Two integers: the correctly rounded quotient,
  \<^verbatim>\<open>ZeroDivisionError\<close> for a zero divisor, \<^verbatim>\<open>OverflowError\<close> when the quotient is beyond
  the binary64 range. With an \<^verbatim>\<open>np.float64\<close> operand: IEEE division. Otherwise Python's
  float division, which raises \<^verbatim>\<open>ZeroDivisionError\<close> for a zero divisor.\<close>

fun py_truediv :: "pynum \<Rightarrow> pynum \<Rightarrow> py_error + pynum" where
  "py_truediv (PyInt a) (PyInt b) =
     (if b = 0 then Inl ZeroDivisionError
      else case fl (of_int a / of_int b) of
             Finite y \<Rightarrow> Inr (PyFloat (Finite y))
           | _ \<Rightarrow> Inl OverflowError)"
| "py_truediv a b =
     py_bind (to_f64 a) (\<lambda>x.
     py_bind (to_f64 b) (\<lambda>y.
       if is_np a \<or> is_np b then Inr (NpFloat (f64_div x y))
       else if y = Finite 0 then Inl ZeroDivisionError
       else Inr (PyFloat (f64_div x y))))"

text \<open>\<^verbatim>\<open>2**extra_bits\<close>: an integer for a non-negative exponent; for a negative one the
  float \<open>2.0 ** float(extra_bits)\<close>, which is \<open>0.0\<close> from \<open>-1075\<close> downwards.\<close>

definition py_pow2 :: "int \<Rightarrow> py_error + pynum" where
  "py_pow2 e =
     (if 0 \<le> e then Inr (PyInt (2 ^ nat e))
      else py_bind (int_to_float e) (\<lambda>_. Inr (PyFloat (fl (pow2 e)))))"

text \<open>\<^verbatim>\<open>np.floor(x)\<close>, \<^verbatim>\<open>round(x)\<close> and \<^verbatim>\<open>int(x)\<close>. Converting an infinity to an integer
  raises \<^verbatim>\<open>OverflowError\<close>, a NaN \<^verbatim>\<open>ValueError\<close>; \<^verbatim>\<open>int\<close> truncates toward zero.\<close>

definition np_floor :: "pynum \<Rightarrow> py_error + pynum" where
  "np_floor a = py_bind (to_f64 a) (\<lambda>x. Inr (NpFloat (f64_floor x)))"

fun f64_to_int :: "(rat \<Rightarrow> int) \<Rightarrow> f64 \<Rightarrow> py_error + int" where
  "f64_to_int r (Finite a) = Inr (r a)"
| "f64_to_int r NaN = Inl ValueError"
| "f64_to_int r x = Inl OverflowError"

definition trunc0 :: "rat \<Rightarrow> int" where
  "trunc0 a = (if 0 \<le> a then \<lfloor>a\<rfloor> else \<lceil>a\<rceil>)"

fun py_int :: "pynum \<Rightarrow> py_error + int" where
  "py_int (PyInt z) = Inr z"
| "py_int (PyFloat x) = f64_to_int trunc0 x"
| "py_int (NpFloat x) = f64_to_int trunc0 x"

fun builtin_round :: "pynum \<Rightarrow> py_error + pynum" where
  "builtin_round (PyInt z) = Inr (PyInt z)"
| "builtin_round (PyFloat x) = py_bind (f64_to_int py_round x) (\<lambda>z. Inr (PyInt z))"
| "builtin_round (NpFloat x) = py_bind (f64_to_int py_round x) (\<lambda>z. Inr (PyInt z))"

subsection \<open>\<^verbatim>\<open>fpga_moving_integrator\<close>\<close>

text \<open>The local variables of the function: the shift register \<^verbatim>\<open>sreg\<close>, the
  accumulator \<^verbatim>\<open>acc\<close> and the output list \<^verbatim>\<open>result\<close>.\<close>

record state =
  sreg :: "pynum list"
  acc :: pynum
  result :: "pynum list"

text \<open>The value appended for one sample, from the updated accumulator \<open>a\<close>: line 41 with
  \<^verbatim>\<open>math_round\<close>, line 43 without, each subexpression in Python's order of evaluation.\<close>

definition quantize :: "int \<Rightarrow> bool \<Rightarrow> int \<Rightarrow> pynum \<Rightarrow> py_error + pynum" where
  "quantize integration math_round extra_bits a =
     py_bind (py_truediv a (PyInt integration)) (\<lambda>mean.
     py_bind (py_pow2 extra_bits) (\<lambda>p.
     py_bind (py_mul mean p) (\<lambda>scaled.
     py_bind (if math_round then builtin_round scaled else np_floor scaled) (\<lambda>r.
     py_bind (py_int r) (\<lambda>q.
     py_bind (py_pow2 extra_bits) (\<lambda>p'.
       py_truediv (PyInt q) p'))))))"

text \<open>The same value in the spec's words: the exact rational
  \<open>scaled = accumulator / integration * 2^extra_bits\<close>, quantized by the floor or by rounding
  half to even, then divided by \<open>2^extra_bits\<close>.\<close>

definition exact_quantize :: "int \<Rightarrow> bool \<Rightarrow> int \<Rightarrow> int \<Rightarrow> rat" where
  "exact_quantize integration math_round extra_bits a =
     (let scaled = of_int a / of_int integration * pow2 extra_bits
      in of_int (if math_round then py_round scaled else \<lfloor>scaled\<rfloor>) / pow2 extra_bits)"

text \<open>One iteration of the \<^verbatim>\<open>for\<close> loop.\<close>

definition step :: "int \<Rightarrow> bool \<Rightarrow> int \<Rightarrow> state \<Rightarrow> int \<Rightarrow> py_error + state" where
  "step integration math_round extra_bits s sample =
     py_bind (deque_pop (sreg s)) (\<lambda>(old, d).
     py_bind (py_sub (PyInt sample) old) (\<lambda>diff.
     py_bind (py_add (acc s) diff) (\<lambda>a.
     py_bind (quantize integration math_round extra_bits a) (\<lambda>v.
       Inr \<lparr>sreg = deque_appendleft (PyInt sample) d, acc = a,
            result = result s @ [v]\<rparr>))))"

text \<open>The loop over the samples, stopping at the first exception.\<close>

fun run :: "int \<Rightarrow> bool \<Rightarrow> int \<Rightarrow> int list \<Rightarrow> state \<Rightarrow> py_error + state" where
  "run integration math_round extra_bits [] s = Inr s"
| "run integration math_round extra_bits (sample # samples) s =
     py_bind (step integration math_round extra_bits s sample)
       (run integration math_round extra_bits samples)"

text \<open>The state in which the function leaves its loop: the three initialisations
  (\<^verbatim>\<open>np.zeros\<close> fills the deque with \<^verbatim>\<open>np.float64\<close> zeros, \<^verbatim>\<open>acc\<close> is the integer
  \<open>0\<close>), then the loop.\<close>

definition fpga_state :: "int list \<Rightarrow> int \<Rightarrow> bool \<Rightarrow> int \<Rightarrow> py_error + state" where
  "fpga_state samples integration math_round extra_bits =
     py_bind (np_zeros integration) (\<lambda>z.
       run integration math_round extra_bits samples
         \<lparr>sreg = map (\<lambda>x. NpFloat (Finite x)) z, acc = PyInt 0, result = []\<rparr>)"

definition fpga_moving_integrator ::
    "int list \<Rightarrow> int \<Rightarrow> bool \<Rightarrow> int \<Rightarrow> py_error + pynum list" where
  "fpga_moving_integrator samples integration math_round extra_bits =
     py_bind (fpga_state samples integration math_round extra_bits) (\<lambda>s. Inr (result s))"

subsection \<open>The window and its sum\<close>

text \<open>The number an object stands for, and the sum of the window contents as a number,
  taken without rounding (not a number if an element is not finite).\<close>

fun value_of :: "pynum \<Rightarrow> f64" where
  "value_of (PyInt z) = Finite (of_int z)"
| "value_of (PyFloat x) = x"
| "value_of (NpFloat x) = x"

fun exact_add :: "f64 \<Rightarrow> f64 \<Rightarrow> f64" where
  "exact_add (Finite a) (Finite b) = Finite (a + b)"
| "exact_add x y = NaN"

definition window_total :: "pynum list \<Rightarrow> f64" where
  "window_total w = foldr (\<lambda>x. exact_add (value_of x)) w (Finite 0)"

text \<open>The integer an element of the window contributes: a sample is itself, an initial
  \<^verbatim>\<open>0.0\<close> is nothing. A window within the bound \<open>B\<close> holds only initial zeros and samples
  of magnitude at most \<open>B\<close>.\<close>

fun ival :: "pynum \<Rightarrow> int" where
  "ival (PyInt z) = z"
| "ival x = 0"

definition window_ok :: "int \<Rightarrow> pynum list \<Rightarrow> bool" where
  "window_ok B w \<longleftrightarrow>
     (\<forall>x\<in>set w. x = NpFloat (Finite 0) \<or> (\<exists>z. x = PyInt z \<and> \<bar>z\<bar> \<le> B))"

text \<open>The loop invariant in the exact range: the shift register holds \<^verbatim>\<open>integration\<close>
  elements within the bound, and the accumulator is the \<^verbatim>\<open>np.float64\<close> of their sum (or
  still the initial integer \<open>0\<close>, over the initial zeros).\<close>

definition loop_inv :: "int \<Rightarrow> int \<Rightarrow> state \<Rightarrow> bool" where
  "loop_inv n B s \<longleftrightarrow>
     length (sreg s) = nat n \<and> window_ok B (sreg s) \<and>
     (acc s = NpFloat (Finite (of_int (sum_list (map ival (sreg s))))) \<or>
      acc s = PyInt 0 \<and> (\<forall>x\<in>set (sreg s). x = NpFloat (Finite 0)))"

section \<open>Powers of two, rounding and binary64\<close>

text \<open>\<open>pow2\<close> is the integer power of two of the library.\<close>

lemma pow2_powi: "pow2 e = 2 powi e"
  by (simp add: pow2_def power_int_def inverse_eq_divide power_one_over)

lemma pow2_pos: "0 < pow2 e"
  by (simp add: pow2_powi)

lemma pow2_nonzero: "pow2 e \<noteq> 0"
  using pow2_pos [of e] by simp

lemma pow2_add: "pow2 (a + b) = pow2 a * pow2 b"
  by (simp add: pow2_powi power_int_add)

lemma pow2_diff: "pow2 (a - b) = pow2 a / pow2 b"
  by (simp add: pow2_powi power_int_diff)

lemma pow2_0: "pow2 0 = 1"
  by (simp add: pow2_def)

lemma pow2_minus: "pow2 (- e) = 1 / pow2 e"
  by (simp add: pow2_powi power_int_minus inverse_eq_divide)

lemma pow2_mono: "a \<le> b \<Longrightarrow> pow2 a \<le> pow2 b"
  by (simp add: pow2_powi power_int_increasing)

lemma pow2_strict_mono: "a < b \<Longrightarrow> pow2 a < pow2 b"
  by (simp add: pow2_powi power_int_strict_increasing)

lemma pow2_le_iff: "pow2 a \<le> pow2 b \<longleftrightarrow> a \<le> b"
  using pow2_mono [of a b] pow2_strict_mono [of b a] by (auto simp: not_le [symmetric])

lemma pow2_less_iff: "pow2 a < pow2 b \<longleftrightarrow> a < b"
  using pow2_strict_mono [of a b] pow2_mono [of b a] by (auto simp: not_less [symmetric])

lemma pow2_nat: "0 \<le> e \<Longrightarrow> pow2 e = of_int (2 ^ nat e)"
  by (simp add: pow2_def)

lemma pow2_1: "pow2 1 = 2"
  by (simp add: pow2_def)

lemma pow2_Suc: "pow2 (e + 1) = 2 * pow2 e"
  by (simp add: pow2_add pow2_1)

lemma expo_bounds:
  assumes "x \<noteq> 0"
  shows "pow2 (expo x) \<le> \<bar>x\<bar>" and "\<bar>x\<bar> < pow2 (expo x + 1)"
proof -
  obtain p q where pq: "quotient_of \<bar>x\<bar> = (p, q)" by (cases "quotient_of \<bar>x\<bar>")
  have q: "0 < q" by (rule quotient_of_denom_pos [OF pq])
  have x: "\<bar>x\<bar> = of_int p / of_int q" by (rule quotient_of_div [OF pq])
  have p: "0 < p"
  proof -
    have "0 < \<bar>x\<bar>" using assms by simp
    then have "0 < rat_of_int p / of_int q" by (simp only: x)
    then show ?thesis using q by (simp add: zero_less_divide_iff)
  qed
  define bp where "bp = bitlen p"
  define bq where "bq = bitlen q"
  have bp1: "1 \<le> bp" using p bitlen_eq_zero_iff [of p] bitlen_nonneg [of p]
    unfolding bp_def by linarith
  have bq1: "1 \<le> bq" using q bitlen_eq_zero_iff [of q] bitlen_nonneg [of q]
    unfolding bq_def by linarith
  have pb: "rat_of_int (2 ^ nat (bp - 1)) \<le> of_int p" "rat_of_int p < of_int (2 ^ nat bp)"
    using bitlen_bounds [OF p] unfolding bp_def by (simp_all only: of_int_le_iff of_int_less_iff)
  have qb: "rat_of_int (2 ^ nat (bq - 1)) \<le> of_int q" "rat_of_int q < of_int (2 ^ nat bq)"
    using bitlen_bounds [OF q] unfolding bq_def by (simp_all only: of_int_le_iff of_int_less_iff)
  have pb': "pow2 (bp - 1) \<le> of_int p" "rat_of_int p < pow2 bp"
    using pb bp1 by (simp_all add: pow2_nat)
  have qb': "pow2 (bq - 1) \<le> of_int q" "rat_of_int q < pow2 bq"
    using qb bq1 by (simp_all add: pow2_nat)
  have qpos: "0 < rat_of_int q" using q by simp
  have ppos: "0 < rat_of_int p" using p by simp
  have up: "\<bar>x\<bar> < pow2 (bp - bq + 1)"
  proof -
    have "rat_of_int p < pow2 bp" by fact
    also have "pow2 bp = pow2 (bp - bq + 1) * pow2 (bq - 1)"
      by (simp add: pow2_add [symmetric])
    also have "\<dots> \<le> pow2 (bp - bq + 1) * of_int q"
      using qb'(1) pow2_pos [of "bp - bq + 1"] by (simp add: mult_left_mono)
    finally show ?thesis using qpos by (simp add: x pos_divide_less_eq)
  qed
  have lo: "pow2 (bp - bq - 1) < \<bar>x\<bar>"
  proof -
    have "pow2 (bp - bq - 1) * of_int q < pow2 (bp - bq - 1) * pow2 bq"
      using qb'(2) pow2_pos [of "bp - bq - 1"] by (simp add: mult_strict_left_mono)
    also have "\<dots> = pow2 (bp - 1)" by (simp add: pow2_add [symmetric])
    also have "\<dots> \<le> of_int p" by fact
    finally show ?thesis using qpos by (simp add: x pos_less_divide_eq)
  qed
  have e: "expo x = (if pow2 (bp - bq) \<le> \<bar>x\<bar> then bp - bq else bp - bq - 1)"
    by (simp add: expo_def pq bp_def bq_def Let_def)
  show "pow2 (expo x) \<le> \<bar>x\<bar>" using lo by (auto simp: e)
  show "\<bar>x\<bar> < pow2 (expo x + 1)" using up by (auto simp: e not_le)
qed

lemma expo_unique:
  assumes "pow2 e \<le> \<bar>x\<bar>" and "\<bar>x\<bar> < pow2 (e + 1)"
  shows "expo x = e"
proof -
  have x: "x \<noteq> 0" using assms(1) pow2_pos [of e] by auto
  have "pow2 (expo x) < pow2 (e + 1)"
    using expo_bounds(1) [OF x] assms(2) by simp
  moreover have "pow2 e < pow2 (expo x + 1)"
    using expo_bounds(2) [OF x] assms(1) by simp
  ultimately show ?thesis by (simp add: pow2_less_iff)
qed

lemma expo_ge: "x \<noteq> 0 \<Longrightarrow> pow2 l \<le> \<bar>x\<bar> \<Longrightarrow> l \<le> expo x"
proof -
  assume x: "x \<noteq> 0" and l: "pow2 l \<le> \<bar>x\<bar>"
  have "pow2 l < pow2 (expo x + 1)" using expo_bounds(2) [OF x] l by simp
  then show ?thesis by (simp add: pow2_less_iff)
qed

lemma expo_less: "x \<noteq> 0 \<Longrightarrow> \<bar>x\<bar> < pow2 h \<Longrightarrow> expo x < h"
proof -
  assume x: "x \<noteq> 0" and h: "\<bar>x\<bar> < pow2 h"
  have "pow2 (expo x) < pow2 h" using expo_bounds(1) [OF x] h by simp
  then show ?thesis by (simp add: pow2_less_iff)
qed

lemma expo_minus: "expo (- x) = expo x"
  by (simp add: expo_def)


lemma py_round_of_int: "py_round (of_int z) = z"
  by (simp add: py_round_def)

lemma py_round_split:
  "(py_round x = \<lfloor>x\<rfloor> \<and> x - of_int \<lfloor>x\<rfloor> \<le> 1 / 2) \<or>
   (py_round x = \<lfloor>x\<rfloor> + 1 \<and> 1 / 2 \<le> x - of_int \<lfloor>x\<rfloor>)"
  by (auto simp: py_round_def Let_def)

lemma floor_le_py_round: "\<lfloor>x\<rfloor> \<le> py_round x"
  using py_round_split [of x] by auto

lemma py_round_half: "\<bar>x - of_int (py_round x)\<bar> \<le> 1 / 2"
proof -
  have "0 \<le> x - of_int \<lfloor>x\<rfloor>" "x - of_int \<lfloor>x\<rfloor> < 1" by linarith+
  then show ?thesis using py_round_split [of x] by auto
qed

lemma py_round_nearest:
  "\<bar>x - of_int (py_round x)\<bar> \<le> \<bar>x - of_int m\<bar>"
proof -
  define f where "f = \<lfloor>x\<rfloor>"
  define d where "d = x - of_int f"
  have d: "0 \<le> d" "d < 1" unfolding d_def f_def by linarith+
  have x: "x = of_int f + d" by (simp add: d_def)
  have "m \<le> f \<or> f + 1 \<le> m" by linarith
  then have far: "rat_of_int m \<le> of_int f \<or> rat_of_int f + 1 \<le> of_int m"
    by (metis of_int_le_iff of_int_add of_int_1)
  from py_round_split [of x]
  have r: "(py_round x = f \<and> d \<le> 1 / 2) \<or> (py_round x = f + 1 \<and> 1 / 2 \<le> d)"
    by (simp add: f_def d_def)
  show ?thesis
    using d far r unfolding x by auto
qed

lemma py_round_tie_even:
  "x - of_int \<lfloor>x\<rfloor> = 1 / 2 \<Longrightarrow> even (py_round x)"
  by (simp add: py_round_def Let_def)

lemma py_round_mono:
  assumes "x \<le> y"
  shows "py_round x \<le> py_round y"
proof (rule ccontr)
  assume "\<not> py_round x \<le> py_round y"
  then have "py_round y + 1 \<le> py_round x" by simp
  then have gap: "rat_of_int (py_round y) + 1 \<le> of_int (py_round x)"
    by (metis of_int_le_iff of_int_add of_int_1)
  have hx: "\<bar>x - of_int (py_round x)\<bar> \<le> 1 / 2" by (rule py_round_half)
  have hy: "\<bar>y - of_int (py_round y)\<bar> \<le> 1 / 2" by (rule py_round_half)
  have "x = y" using hx hy gap assms by linarith
  then show False using \<open>\<not> py_round x \<le> py_round y\<close> by simp
qed

lemma py_round_interval:
  assumes "of_int m - 1 / 2 < x" and "x < of_int m + 1 / 2"
  shows "py_round x = m"
proof -
  have "\<bar>x - of_int (py_round x)\<bar> \<le> 1 / 2" by (rule py_round_half)
  then have "\<bar>rat_of_int (py_round x) - of_int m\<bar> < 1" using assms by linarith
  then have "\<bar>rat_of_int (py_round x - m)\<bar> < 1" by simp
  then have "\<bar>py_round x - m\<bar> < 1" by (simp only: of_int_abs [symmetric] of_int_less_1_iff)
  then show ?thesis by simp
qed

lemma py_round_minus: "py_round (- x) = - py_round x"
proof (cases "x - of_int \<lfloor>x\<rfloor> = 1 / 2")
  case True
  define f where "f = \<lfloor>x\<rfloor>"
  have x: "x = of_int f + 1 / 2" using True by (simp add: f_def)
  have fl: "\<lfloor>- x\<rfloor> = - f - 1" unfolding x by (simp add: floor_eq_iff)
  have "\<lfloor>x\<rfloor> = f" by (simp add: f_def)
  then have r1: "py_round x = (if even f then f else f + 1)"
    using True by (simp add: py_round_def Let_def)
  have "- x - of_int \<lfloor>- x\<rfloor> = 1 / 2" unfolding fl by (simp add: x)
  then have r2: "py_round (- x) = (if even (- f - 1) then - f - 1 else - f)"
    by (simp add: py_round_def Let_def fl)
  show ?thesis unfolding r1 r2 by auto
next
  case False
  have h: "\<bar>x - of_int (py_round x)\<bar> \<le> 1 / 2" by (rule py_round_half)
  have ne: "\<bar>x - of_int (py_round x)\<bar> \<noteq> 1 / 2"
  proof
    assume a: "\<bar>x - of_int (py_round x)\<bar> = 1 / 2"
    from py_round_split [of x] have "x - of_int \<lfloor>x\<rfloor> = 1 / 2"
    proof
      assume b: "py_round x = \<lfloor>x\<rfloor> \<and> x - of_int \<lfloor>x\<rfloor> \<le> 1 / 2"
      have "0 \<le> x - of_int \<lfloor>x\<rfloor>" by linarith
      then show ?thesis using a b by simp
    next
      assume b: "py_round x = \<lfloor>x\<rfloor> + 1 \<and> 1 / 2 \<le> x - of_int \<lfloor>x\<rfloor>"
      have "x - of_int \<lfloor>x\<rfloor> < 1" by linarith
      then show ?thesis using a b by simp
    qed
    then show False using False by simp
  qed
  have lt: "\<bar>x - of_int (py_round x)\<bar> < 1 / 2" using h ne by linarith
  have m: "rat_of_int (- py_round x) = - of_int (py_round x)" by simp
  show ?thesis
  proof (rule py_round_interval)
    show "of_int (- py_round x) - 1 / 2 < - x" unfolding m using lt by linarith
    show "- x < of_int (- py_round x) + 1 / 2" unfolding m using lt by linarith
  qed
qed


lemma py_round_abs_le:
  assumes "\<bar>z\<bar> \<le> of_int B"
  shows "\<bar>py_round z\<bar> \<le> B"
proof -
  have up: "z \<le> of_int B" using assms by linarith
  have dn: "of_int (- B) \<le> z" using assms by simp
  have "py_round z \<le> py_round (of_int B)" by (rule py_round_mono [OF up])
  moreover have "py_round (of_int (- B)) \<le> py_round z" by (rule py_round_mono [OF dn])
  ultimately show ?thesis unfolding py_round_of_int by simp
qed

lemma pow2_numeral_53: "pow2 53 = of_int (2 ^ 53)" and pow2_numeral_52: "pow2 52 = of_int (2 ^ 52)"
  by (simp_all add: pow2_def)

lemma pow2_1024_pos: "\<not> pow2 1024 \<le> 0" and pow2_1024_neg: "\<not> 0 \<le> - pow2 1024"
  using pow2_pos [of 1024] by simp_all

lemma fl_unfold:
  "fl x =
     (if x = 0 then Finite 0
      else let u = pow2 (max (expo x) (- 1022) - 52);
               y = of_int (py_round (x / u)) * u
           in if pow2 1024 \<le> y then PosInf
              else if y \<le> - pow2 1024 then NegInf
              else Finite y)"
  by (simp add: fl_def round53_def Let_def pow2_1024_pos pow2_1024_neg)

lemma fl_0 [simp]: "fl 0 = Finite 0"
  by (simp add: fl_unfold)

lemma fl_finite_of_bound:
  assumes "x \<noteq> 0" and "max (expo x) (- 1022) - 52 = k" and "\<bar>x\<bar> < pow2 (k + 53)"
    and "k \<le> 970"
  shows "fl x = Finite (of_int (py_round (x / pow2 k)) * pow2 k)"
    and "\<bar>py_round (x / pow2 k)\<bar> \<le> 2 ^ 53"
proof -
  define u where "u = pow2 k"
  define M where "M = py_round (x / u)"
  have u: "0 < u" by (simp add: u_def pow2_pos)
  have "pow2 (k + 53) = pow2 53 * u" by (simp add: u_def pow2_add mult.commute)
  then have "\<bar>x\<bar> < pow2 53 * u" using assms(3) by simp
  then have "\<bar>x\<bar> / u < pow2 53" using u by (simp add: pos_divide_less_eq)
  then have xu: "\<bar>x / u\<bar> \<le> of_int (2 ^ 53)"
    using u unfolding pow2_numeral_53 by (simp add: abs_divide)
  have M: "\<bar>M\<bar> \<le> 2 ^ 53" unfolding M_def by (rule py_round_abs_le [OF xu])
  then show "\<bar>py_round (x / pow2 k)\<bar> \<le> 2 ^ 53" by (simp add: M_def u_def)
  have "\<bar>rat_of_int M\<bar> \<le> of_int (2 ^ 53)"
    using M by (simp only: of_int_abs [symmetric] of_int_le_iff)
  then have "\<bar>rat_of_int M\<bar> * u \<le> pow2 53 * u"
    using u unfolding pow2_numeral_53 by (simp add: mult_right_mono)
  also have "pow2 53 * u = pow2 (k + 53)" by (simp add: u_def pow2_add mult.commute)
  also have "\<dots> \<le> pow2 1023" using assms(4) by (simp add: pow2_mono)
  also have "\<dots> < pow2 1024" by (simp add: pow2_strict_mono)
  finally have "\<bar>rat_of_int M * u\<bar> < pow2 1024" using u by (simp add: abs_mult)
  then have y: "\<not> pow2 1024 \<le> of_int M * u" "\<not> of_int M * u \<le> - pow2 1024"
    by (simp_all add: abs_less_iff)
  show "fl x = Finite (of_int (py_round (x / pow2 k)) * pow2 k)"
    using assms(1,2) y by (simp add: fl_unfold Let_def M_def u_def)
qed

lemma fl_normal:
  assumes lo: "pow2 e \<le> \<bar>x\<bar>" and hi: "\<bar>x\<bar> < pow2 (e + 1)"
    and e1: "- 1022 \<le> e" and e2: "e \<le> 1022"
  shows "fl x = Finite (of_int (py_round (x / pow2 (e - 52))) * pow2 (e - 52))"
    and "\<bar>py_round (x / pow2 (e - 52))\<bar> \<le> 2 ^ 53"
proof -
  have x0: "x \<noteq> 0" using lo pow2_pos [of e] by auto
  have ex: "expo x = e" by (rule expo_unique [OF lo hi])
  have k: "max (expo x) (- 1022) - 52 = e - 52" using e1 by (simp add: ex)
  have "e - 52 + 53 = e + 1" by simp
  then have b: "\<bar>x\<bar> < pow2 (e - 52 + 53)" using hi by (simp only:)
  have c: "e - 52 \<le> 970" using e2 by simp
  show "fl x = Finite (of_int (py_round (x / pow2 (e - 52))) * pow2 (e - 52))"
    by (rule fl_finite_of_bound(1) [OF x0 k b c])
  show "\<bar>py_round (x / pow2 (e - 52))\<bar> \<le> 2 ^ 53"
    by (rule fl_finite_of_bound(2) [OF x0 k b c])
qed

lemma fl_subnormal:
  assumes hi: "\<bar>x\<bar> < pow2 (- 1022)"
  shows "fl x = Finite (of_int (py_round (x / pow2 (- 1074))) * pow2 (- 1074))"
proof (cases "x = 0")
  case True
  then show ?thesis by (simp add: fl_unfold py_round_def)
next
  case x0: False
  have ex: "expo x < - 1022" by (rule expo_less [OF x0 hi])
  have k: "max (expo x) (- 1022) - 52 = - 1074" using ex by simp
  have "pow2 (- 1022) \<le> pow2 (- 1074 + 53)" by (simp add: pow2_mono)
  then have b: "\<bar>x\<bar> < pow2 (- 1074 + 53)" using hi by simp
  show ?thesis by (rule fl_finite_of_bound(1) [OF x0 k b]) simp
qed

text \<open>A number with a significand of at most 53 bits, within the exponent range, is
  not changed by rounding.\<close>

lemma fl_exact_strict:
  assumes x: "x = of_int m * pow2 k" and m: "\<bar>m\<bar> < 2 ^ 53" and k: "- 1074 \<le> k"
    and r: "\<bar>x\<bar> < pow2 1024"
  shows "fl x = Finite x"
proof (cases "x = 0")
  case True
  then show ?thesis by (simp add: fl_unfold)
next
  case x0: False
  define e' where "e' = max (expo x) (- 1022)"
  have mr: "\<bar>rat_of_int m\<bar> < of_int (2 ^ 53)"
    using m by (simp only: of_int_abs [symmetric] of_int_less_iff)
  have "\<bar>x\<bar> = \<bar>rat_of_int m\<bar> * pow2 k" using pow2_pos [of k] by (simp add: x abs_mult)
  also have "\<dots> < pow2 53 * pow2 k"
    using mr pow2_pos [of k] unfolding pow2_numeral_53 by (simp add: mult_strict_right_mono)
  also have "\<dots> = pow2 (53 + k)" by (simp add: pow2_add)
  finally have xlt: "\<bar>x\<bar> < pow2 (53 + k)" .
  have "expo x < 53 + k" by (rule expo_less [OF x0 xlt])
  then have ke: "e' - 52 \<le> k" using k by (simp add: e'_def)
  define j where "j = nat (k - (e' - 52))"
  have kj: "k = (e' - 52) + int j" using ke by (simp add: j_def)
  have "pow2 k = pow2 (e' - 52) * of_int (2 ^ j)"
    by (subst kj) (simp add: pow2_add pow2_nat)
  then have xu: "x / pow2 (e' - 52) = of_int (m * 2 ^ j)"
    using pow2_nonzero [of "e' - 52"] by (simp add: x)
  have y: "of_int (py_round (x / pow2 (e' - 52))) * pow2 (e' - 52) = x"
    unfolding xu py_round_of_int using xu pow2_nonzero [of "e' - 52"] by (simp add: field_simps)
  have "\<not> pow2 1024 \<le> x" "\<not> x \<le> - pow2 1024" using r by (simp_all add: abs_less_iff)
  then show ?thesis using x0 y by (simp add: fl_unfold Let_def e'_def)
qed

lemma fl_exact:
  assumes x: "x = of_int m * pow2 k" and m: "\<bar>m\<bar> \<le> 2 ^ 53" and k: "- 1074 \<le> k"
    and r: "\<bar>x\<bar> < pow2 1024"
  shows "fl x = Finite x"
proof (cases "\<bar>m\<bar> < 2 ^ 53")
  case True
  show ?thesis by (rule fl_exact_strict [OF x True k r])
next
  case False
  then have "\<bar>m\<bar> = 2 ^ 53" using m by simp
  then have "m = 2 * 2 ^ 52 \<or> m = 2 * (- (2 ^ 52))" by auto
  then obtain m' :: int where m': "m = 2 * m'" "\<bar>m'\<bar> < 2 ^ 53" by auto
  have "x = of_int m' * pow2 (k + 1)" by (simp add: x m'(1) pow2_Suc)
  then show ?thesis using m'(2) k r by (intro fl_exact_strict [of x m' "k + 1"]) simp_all
qed

lemma fl_int:
  assumes "\<bar>z\<bar> \<le> 2 ^ 53"
  shows "fl (of_int z) = Finite (of_int z)"
proof (rule fl_exact [of _ z 0])
  show "rat_of_int z = of_int z * pow2 0" by (simp add: pow2_0)
  show "\<bar>z\<bar> \<le> 2 ^ 53" by fact
  show "- 1074 \<le> (0::int)" by simp
  have "\<bar>rat_of_int z\<bar> \<le> of_int (2 ^ 53)"
    using assms by (simp only: of_int_abs [symmetric] of_int_le_iff)
  also have "\<dots> = pow2 53" by (simp add: pow2_numeral_53)
  also have "\<dots> < pow2 1024" by (simp add: pow2_strict_mono)
  finally show "\<bar>rat_of_int z\<bar> < pow2 1024" .
qed

lemma fl_error:
  assumes lo: "pow2 (- 1022) \<le> \<bar>x\<bar>" and hi: "\<bar>x\<bar> < pow2 1023"
  shows "\<exists>M. fl x = Finite (of_int M * pow2 (expo x - 52)) \<and> \<bar>M\<bar> \<le> 2 ^ 53
           \<and> \<bar>of_int M * pow2 (expo x - 52) - x\<bar> \<le> pow2 (- 53) * \<bar>x\<bar>"
proof -
  have x0: "x \<noteq> 0" using lo pow2_pos [of "- 1022"] by auto
  define e where "e = expo x"
  define u where "u = pow2 (e - 52)"
  define M where "M = py_round (x / u)"
  have u: "0 < u" by (simp add: u_def pow2_pos)
  have b: "pow2 e \<le> \<bar>x\<bar>" "\<bar>x\<bar> < pow2 (e + 1)"
    using expo_bounds [OF x0] by (simp_all add: e_def)
  have e1: "- 1022 \<le> e" unfolding e_def by (rule expo_ge [OF x0 lo])
  have "e < 1023" unfolding e_def by (rule expo_less [OF x0 hi])
  then have e2: "e \<le> 1022" by simp
  have f: "fl x = Finite (of_int M * u)" and Mb: "\<bar>M\<bar> \<le> 2 ^ 53"
    using fl_normal [OF b e1 e2] by (simp_all add: M_def u_def)
  have "\<bar>of_int M * u - x\<bar> = \<bar>of_int M - x / u\<bar> * u"
  proof -
    have "of_int M * u - x = (of_int M - x / u) * u" using u by (simp add: field_simps)
    then show ?thesis using u by (simp add: abs_mult)
  qed
  also have "\<dots> \<le> 1 / 2 * u"
  proof -
    have "\<bar>of_int M - x / u\<bar> \<le> 1 / 2"
      using py_round_half [of "x / u"] by (simp add: M_def abs_minus_commute)
    then show ?thesis using u by (simp add: mult_right_mono)
  qed
  also have "1 / 2 * u = pow2 (- 53) * pow2 e"
  proof -
    have "pow2 (- 53) * pow2 e = pow2 (- 1 + (e - 52))" by (simp add: pow2_add [symmetric])
    also have "\<dots> = pow2 (- 1) * u" by (simp only: pow2_add u_def)
    also have "pow2 (- 1) = 1 / 2" by (simp add: pow2_def)
    finally show ?thesis by simp
  qed
  also have "\<dots> \<le> pow2 (- 53) * \<bar>x\<bar>"
    using b(1) pow2_pos [of "- 53"] by (simp add: mult_left_mono)
  finally show ?thesis using f Mb by (auto simp: u_def e_def)
qed

lemma int_gap:
  assumes K: "t * of_int D = rat_of_int K" and D: "0 < rat_of_int D" and t: "0 < t"
  shows "1 / of_int D \<le> t"
proof -
  have "0 < t * rat_of_int D" using t D by simp
  then have "0 < rat_of_int K" by (simp only: K)
  then have "1 \<le> K" by simp
  then have "rat_of_int 1 \<le> rat_of_int K" by (simp only: of_int_le_iff)
  then have "1 \<le> t * of_int D" by (simp add: K)
  then show ?thesis using D by (simp add: pos_divide_le_eq)
qed

lemma floor_stable:
  assumes D: "0 < D" and N: "X * of_int D = rat_of_int N"
    and close: "\<bar>Y - X\<bar> < 1 / of_int D"
    and exact: "X \<in> \<int> \<Longrightarrow> Y = X"
  shows "\<lfloor>Y\<rfloor> = \<lfloor>X\<rfloor>"
proof (cases "X \<in> \<int>")
  case True
  then show ?thesis using exact by simp
next
  case False
  define m where "m = \<lfloor>X\<rfloor>"
  have Dr: "0 < rat_of_int D" using D by simp
  have "of_int m \<noteq> X" using False by auto
  then have lt: "0 < X - of_int m" "0 < of_int m + 1 - X" unfolding m_def by linarith+
  have "(X - of_int m) * of_int D = rat_of_int (N - m * D)"
    by (simp add: algebra_simps N)
  then have g1: "1 / of_int D \<le> X - of_int m" using Dr lt(1) by (rule int_gap)
  have "(of_int m + 1 - X) * of_int D = rat_of_int ((m + 1) * D - N)"
    by (simp add: algebra_simps N)
  then have g2: "1 / of_int D \<le> of_int m + 1 - X" using Dr lt(2) by (rule int_gap)
  have "of_int m \<le> Y" "Y < of_int m + 1" using g1 g2 close by linarith+
  then have "\<lfloor>Y\<rfloor> = m" by (simp add: floor_eq_iff)
  then show ?thesis by (simp add: m_def)
qed

lemma round_stable:
  assumes D: "0 < D" and N: "X * of_int D = rat_of_int N"
    and close: "\<bar>Y - X\<bar> < 1 / of_int (2 * D)"
    and exact: "2 * X \<in> \<int> \<Longrightarrow> Y = X"
  shows "py_round Y = py_round X"
proof (cases "2 * X \<in> \<int>")
  case True
  then show ?thesis using exact by simp
next
  case False
  define m where "m = py_round X"
  have Dr: "0 < rat_of_int (2 * D)" using D by simp
  have h: "\<bar>X - of_int m\<bar> \<le> 1 / 2" unfolding m_def by (rule py_round_half)
  have ne1: "X \<noteq> of_int m - 1 / 2"
  proof
    assume "X = of_int m - 1 / 2"
    then have "2 * X = of_int (2 * m - 1)" by simp
    then show False using False by (metis Ints_of_int)
  qed
  have ne2: "X \<noteq> of_int m + 1 / 2"
  proof
    assume "X = of_int m + 1 / 2"
    then have "2 * X = of_int (2 * m + 1)" by simp
    then show False using False by (metis Ints_of_int)
  qed
  have lt: "0 < X - (of_int m - 1 / 2)" "0 < of_int m + 1 / 2 - X"
    using h ne1 ne2 by linarith+
  have "(X - (of_int m - 1 / 2)) * of_int (2 * D) = rat_of_int (2 * N - (2 * m - 1) * D)"
    using N by (simp add: algebra_simps)
  then have g1: "1 / of_int (2 * D) \<le> X - (of_int m - 1 / 2)"
    using Dr lt(1) by (rule int_gap)
  have "(of_int m + 1 / 2 - X) * of_int (2 * D) = rat_of_int ((2 * m + 1) * D - 2 * N)"
    using N by (simp add: algebra_simps)
  then have g2: "1 / of_int (2 * D) \<le> of_int m + 1 / 2 - X"
    using Dr lt(2) by (rule int_gap)
  have "of_int m - 1 / 2 < Y" "Y < of_int m + 1 / 2" using g1 g2 close by linarith+
  then have "py_round Y = m" by (rule py_round_interval)
  then show ?thesis by (simp add: m_def)
qed

lemma pow2_split: "pow2 eb * of_int (2 ^ nat (- eb)) = of_int (2 ^ nat eb)"
  by (simp add: pow2_def)

lemma pow2_le_nat: "pow2 eb \<le> of_int (2 ^ nat eb)"
proof (cases "0 \<le> eb")
  case True
  then show ?thesis by (simp add: pow2_def)
next
  case False
  then have "pow2 eb \<le> pow2 0" by (simp add: pow2_mono)
  then show ?thesis using False by (simp add: pow2_0)
qed

lemma scaled_exact:
  fixes a n eb :: int
  assumes n: "1 \<le> n" and nb: "n < 2 ^ 52" and ab: "\<bar>a\<bar> * 2 ^ nat eb < 2 ^ 52"
    and e1: "- 900 \<le> eb" and e2: "eb \<le> 52"
  shows "\<exists>q. fl (of_int a / of_int n) = Finite q
           \<and> fl (q * pow2 eb) = Finite (q * pow2 eb)
           \<and> \<lfloor>q * pow2 eb\<rfloor> = \<lfloor>of_int a / of_int n * pow2 eb\<rfloor>
           \<and> py_round (q * pow2 eb) = py_round (of_int a / of_int n * pow2 eb)"
proof (cases "a = 0")
  case True
  then show ?thesis by (simp add: fl_unfold)
next
  case a0: False
  define x :: rat where "x = of_int a / of_int n"
  define s where "s = pow2 eb"
  have s: "0 < s" by (simp add: s_def pow2_pos)
  have nr1: "1 \<le> rat_of_int n" and nr3: "0 < rat_of_int n" using n by simp_all
  have nr2: "rat_of_int n < of_int (2 ^ 52)" using nb by (simp only: of_int_less_iff)
  note nr = nr1 nr2 nr3
  have a1: "1 \<le> \<bar>a\<bar>" using a0 by simp
  have "\<bar>a\<bar> * 1 \<le> \<bar>a\<bar> * 2 ^ nat eb" by (intro mult_left_mono) simp_all
  then have alt: "\<bar>a\<bar> < 2 ^ 52" using ab by simp
  have "rat_of_int 1 \<le> rat_of_int \<bar>a\<bar>" using a1 by (simp only: of_int_le_iff)
  then have ar1: "1 \<le> \<bar>rat_of_int a\<bar>" by simp
  have ar2: "\<bar>rat_of_int a\<bar> < of_int (2 ^ 52)"
    using alt by (simp only: of_int_abs [symmetric] of_int_less_iff)
  note ar = ar1 ar2
  have absx: "\<bar>x\<bar> = \<bar>rat_of_int a\<bar> / of_int n" using nr(3) by (simp add: x_def abs_divide)
  have x0: "x \<noteq> 0" using a0 nr(3) by (simp add: x_def)
  have xlo: "pow2 (- 52) \<le> \<bar>x\<bar>"
  proof -
    have "pow2 (- 52) = 1 / of_int (2 ^ 52)" by (simp add: pow2_def)
    also have "\<dots> \<le> 1 / rat_of_int n" using nr by (simp add: frac_le)
    also have "\<dots> \<le> \<bar>rat_of_int a\<bar> / of_int n" using ar(1) nr(3) by (simp add: divide_right_mono)
    finally show ?thesis by (simp only: absx)
  qed
  have xle: "\<bar>x\<bar> \<le> \<bar>rat_of_int a\<bar>"
  proof -
    have "\<bar>rat_of_int a\<bar> / of_int n \<le> \<bar>rat_of_int a\<bar> / 1"
      using nr(1) by (intro divide_left_mono) simp_all
    then show ?thesis by (simp add: absx)
  qed
  have xhi: "\<bar>x\<bar> < pow2 52" using xle ar(2) by (simp add: pow2_numeral_52)
  have lo: "pow2 (- 1022) \<le> \<bar>x\<bar>"
    using xlo pow2_mono [of "- 1022" "- 52"] by simp
  have hi: "\<bar>x\<bar> < pow2 1023"
    using xhi pow2_mono [of 52 1023] by simp
  define e where "e = expo x"
  have el: "- 52 \<le> e" unfolding e_def by (rule expo_ge [OF x0 xlo])
  have eh: "e < 52" unfolding e_def by (rule expo_less [OF x0 xhi])
  from fl_error [OF lo hi] obtain M where M:
    "fl x = Finite (of_int M * pow2 (e - 52))" "\<bar>M\<bar> \<le> 2 ^ 53"
    "\<bar>of_int M * pow2 (e - 52) - x\<bar> \<le> pow2 (- 53) * \<bar>x\<bar>"
    unfolding e_def by blast
  define q where "q = of_int M * pow2 (e - 52)"
  have fq: "fl x = Finite q" by (simp add: q_def M(1))
  have err: "\<bar>q - x\<bar> \<le> pow2 (- 53) * \<bar>x\<bar>" using M(3) by (simp add: q_def)
  \<comment> \<open>scaling by a power of two is exact\<close>
  have qs: "q * s = of_int M * pow2 (e - 52 + eb)" by (simp add: q_def s_def pow2_add)
  have Mr: "\<bar>rat_of_int M\<bar> \<le> of_int (2 ^ 53)"
    using M(2) by (simp only: of_int_abs [symmetric] of_int_le_iff)
  have qsb: "\<bar>q * s\<bar> < pow2 1024"
  proof -
    have "\<bar>q * s\<bar> = \<bar>rat_of_int M\<bar> * pow2 (e - 52 + eb)"
      using pow2_pos [of "e - 52 + eb"] by (simp add: qs abs_mult)
    also have "\<dots> \<le> pow2 53 * pow2 (e - 52 + eb)"
      using Mr pow2_pos [of "e - 52 + eb"] unfolding pow2_numeral_53 by (simp add: mult_right_mono)
    also have "\<dots> = pow2 (53 + (e - 52 + eb))" by (simp only: pow2_add)
    also have "\<dots> < pow2 1024" using eh e2 by (simp add: pow2_strict_mono)
    finally show ?thesis .
  qed
  have kb: "- 1074 \<le> e - 52 + eb" using el e1 by simp
  have fs: "fl (q * s) = Finite (q * s)" by (rule fl_exact [OF qs M(2) kb qsb])
  \<comment> \<open>the rounding error cannot reach the next multiple of the denominator\<close>
  define D where "D = n * 2 ^ nat (- eb)"
  define N where "N = a * 2 ^ nat eb"
  have D: "0 < D" using n by (simp add: D_def)
  have XN: "x * s * of_int D = rat_of_int N"
  proof -
    have "x * s * of_int D = (x * of_int n) * (s * of_int (2 ^ nat (- eb)))" by (simp add: D_def)
    also have "x * of_int n = of_int a" using nr(3) by (simp add: x_def)
    also have "s * of_int (2 ^ nat (- eb)) = of_int (2 ^ nat eb)" unfolding s_def by (rule pow2_split)
    finally show ?thesis by (simp add: N_def)
  qed
  have Dr: "0 < rat_of_int (2 * D)" using D by simp
  have close2: "\<bar>q * s - x * s\<bar> < 1 / of_int (2 * D)"
  proof -
    have "\<bar>q * s - x * s\<bar> = \<bar>q - x\<bar> * s" using s by (simp add: left_diff_distrib [symmetric] abs_mult)
    also have "\<dots> \<le> pow2 (- 53) * \<bar>x\<bar> * s" using err s by (simp add: mult_right_mono)
    finally have "\<bar>q * s - x * s\<bar> * of_int (2 * D) \<le> pow2 (- 53) * \<bar>x\<bar> * s * of_int (2 * D)"
      using Dr by (simp only: mult_right_mono less_imp_le)
    also have "\<dots> = pow2 (- 53) * (2 * \<bar>x * s * of_int D\<bar>)"
      using s D by (simp add: abs_mult)
    also have "\<dots> = pow2 (- 53) * (2 * \<bar>rat_of_int N\<bar>)" by (simp only: XN)
    also have "\<dots> = \<bar>rat_of_int N\<bar> / of_int (2 ^ 52)" by (simp add: pow2_def)
    also have "\<dots> < 1"
    proof -
      have "\<bar>N\<bar> < 2 ^ 52" using ab by (simp add: N_def abs_mult)
      then have "\<bar>rat_of_int N\<bar> < of_int (2 ^ 52)"
        by (simp only: of_int_abs [symmetric] of_int_less_iff)
      then show ?thesis by simp
    qed
    finally show ?thesis using Dr by (simp only: pos_less_divide_eq)
  qed
  have close1: "\<bar>q * s - x * s\<bar> < 1 / of_int D"
  proof -
    have "1 / rat_of_int (2 * D) \<le> 1 / of_int D" using D by (simp add: frac_le)
    then show ?thesis using close2 by linarith
  qed
  \<comment> \<open>an integer or half-integer scaled value has an exactly representable mean\<close>
  have exact2: "q * s = x * s" if "2 * (x * s) \<in> \<int>"
  proof -
    from that obtain Z :: int where Z: "2 * (x * s) = of_int Z" by (auto elim: Ints_cases)
    have "x = of_int Z * (1 / (2 * s))" using Z s by (simp add: field_simps)
    also have "1 / (2 * s) = pow2 (- eb - 1)"
      by (simp add: s_def pow2_diff pow2_minus pow2_1)
    finally have xZ: "x = of_int Z * pow2 (- eb - 1)" .
    have "\<bar>x * s\<bar> \<le> \<bar>rat_of_int a\<bar> * of_int (2 ^ nat eb)"
    proof -
      have "\<bar>x * s\<bar> = \<bar>x\<bar> * s" using s by (simp add: abs_mult)
      also have "\<dots> \<le> \<bar>rat_of_int a\<bar> * of_int (2 ^ nat eb)"
        using xle pow2_le_nat [of eb] s unfolding s_def by (intro mult_mono) simp_all
      finally show ?thesis .
    qed
    also have "\<dots> = rat_of_int (\<bar>a\<bar> * 2 ^ nat eb)" by simp
    also have "\<dots> < of_int (2 ^ 52)" using ab by (simp only: of_int_less_iff)
    finally have "\<bar>x * s\<bar> < 4503599627370496" by simp
    then have "\<bar>rat_of_int Z\<bar> < 9007199254740992" using Z by linarith
    then have "\<bar>rat_of_int Z\<bar> < rat_of_int (2 ^ 53)" by simp
    then have "\<bar>Z\<bar> < 2 ^ 53" by (simp only: of_int_abs [symmetric] of_int_less_iff)
    then have Zb: "\<bar>Z\<bar> \<le> 2 ^ 53" by simp
    have kk: "- 1074 \<le> - eb - 1" using e2 by simp
    have xb: "\<bar>x\<bar> < pow2 1024" using hi pow2_mono [of 1023 1024] by simp
    have "fl x = Finite x" by (rule fl_exact [OF xZ Zb kk xb])
    then have "q = x" using fq by simp
    then show ?thesis by simp
  qed
  have exact1: "q * s = x * s" if "x * s \<in> \<int>"
  proof -
    from that obtain Z :: int where "x * s = of_int Z" by (auto elim: Ints_cases)
    then have "2 * (x * s) = of_int (2 * Z)" by simp
    then have "2 * (x * s) \<in> \<int>" by (metis Ints_of_int)
    then show ?thesis by (rule exact2)
  qed
  have "\<lfloor>q * s\<rfloor> = \<lfloor>x * s\<rfloor>" by (rule floor_stable [OF D XN close1 exact1])
  moreover have "py_round (q * s) = py_round (x * s)" by (rule round_stable [OF D XN close2 exact2])
  ultimately show ?thesis using fq fs by (auto simp: x_def s_def)
qed

section \<open>The quantizer in the exact range\<close>

lemma py_bind_Inr [simp]: "py_bind (Inr x) f = f x"
  by (simp add: py_bind_def)

lemma py_bind_Inl [simp]: "py_bind (Inl e) f = Inl e"
  by (simp add: py_bind_def)

lemma int_to_float_exact:
  "\<bar>z\<bar> \<le> 2 ^ 53 \<Longrightarrow> int_to_float z = Inr (Finite (of_int z))"
  by (simp add: int_to_float_def fl_int)

lemma fl_pow2:
  assumes "- 1074 \<le> e" and "e \<le> 1023"
  shows "fl (pow2 e) = Finite (pow2 e)"
proof (rule fl_exact [of _ 1 e])
  show "pow2 e = of_int 1 * pow2 e" by simp
  show "\<bar>1::int\<bar> \<le> 2 ^ 53" by simp
  show "- 1074 \<le> e" by fact
  have "pow2 e < pow2 1024" using assms(2) by (simp add: pow2_strict_mono)
  then show "\<bar>pow2 e\<bar> < pow2 1024" using pow2_pos [of e] by simp
qed

lemma py_pow2_nonneg:
  "0 \<le> eb \<Longrightarrow> py_pow2 eb = Inr (PyInt (2 ^ nat eb))"
  by (simp add: py_pow2_def)

lemma py_pow2_neg:
  assumes "eb < 0" and "- 1074 \<le> eb"
  shows "py_pow2 eb = Inr (PyFloat (Finite (pow2 eb)))"
proof -
  have "\<bar>eb\<bar> \<le> 2 ^ 53" using assms by simp
  then have "int_to_float eb = Inr (Finite (of_int eb))" by (rule int_to_float_exact)
  moreover have "fl (pow2 eb) = Finite (pow2 eb)" using assms by (intro fl_pow2) simp_all
  ultimately show ?thesis using assms(1) by (simp add: py_pow2_def)
qed

lemma nat_pow_le_53:
  assumes "0 \<le> eb" and "eb \<le> 53"
  shows "(2::int) ^ nat eb \<le> 2 ^ 53"
  using assms by (intro power_increasing) simp_all

lemma mul_pow2:
  assumes e1: "- 900 \<le> eb" and e2: "eb \<le> 52" and p: "py_pow2 eb = Inr p"
    and f: "fl (q * pow2 eb) = Finite (q * pow2 eb)"
  shows "py_mul (NpFloat (Finite q)) p = Inr (NpFloat (Finite (q * pow2 eb)))"
proof (cases "0 \<le> eb")
  case True
  then have pp: "p = PyInt (2 ^ nat eb)" using p by (simp add: py_pow2_nonneg)
  have "\<bar>(2::int) ^ nat eb\<bar> \<le> 2 ^ 53" using nat_pow_le_53 [of eb] True e2 by simp
  then have c: "int_to_float (2 ^ nat eb) = Inr (Finite (of_int (2 ^ nat eb)))"
    by (rule int_to_float_exact)
  have "pow2 eb = of_int (2 ^ nat eb)" using True by (simp add: pow2_nat)
  then show ?thesis using f c by (simp add: pp float_op_def)
next
  case False
  then have pp: "p = PyFloat (Finite (pow2 eb))" using p e1 by (simp add: py_pow2_neg)
  show ?thesis using f by (simp add: pp float_op_def)
qed

lemma div_pow2:
  assumes e1: "- 900 \<le> eb" and e2: "eb \<le> 52" and p: "py_pow2 eb = Inr p"
    and Q: "\<bar>Q\<bar> \<le> 2 ^ 53"
  shows "py_truediv (PyInt Q) p = Inr (PyFloat (Finite (of_int Q / pow2 eb)))"
proof -
  have Qr: "\<bar>rat_of_int Q\<bar> \<le> of_int (2 ^ 53)"
    using Q by (simp only: of_int_abs [symmetric] of_int_le_iff)
  have x: "rat_of_int Q / pow2 eb = of_int Q * pow2 (- eb)" by (simp add: pow2_minus)
  have k: "- 1074 \<le> - eb" using e2 by simp
  have b: "\<bar>rat_of_int Q / pow2 eb\<bar> < pow2 1024"
  proof -
    have "\<bar>rat_of_int Q / pow2 eb\<bar> = \<bar>rat_of_int Q\<bar> * pow2 (- eb)"
      using pow2_pos [of "- eb"] by (simp add: x abs_mult)
    also have "\<dots> \<le> pow2 53 * pow2 (- eb)"
      using Qr pow2_pos [of "- eb"] unfolding pow2_numeral_53 by (simp add: mult_right_mono)
    also have "\<dots> = pow2 (53 + - eb)" by (simp only: pow2_add)
    also have "\<dots> < pow2 1024" using e1 by (simp add: pow2_strict_mono)
    finally show ?thesis .
  qed
  have f: "fl (rat_of_int Q / pow2 eb) = Finite (of_int Q / pow2 eb)"
    by (rule fl_exact [OF x Q k b])
  show ?thesis
  proof (cases "0 \<le> eb")
    case True
    then have pp: "p = PyInt (2 ^ nat eb)" using p by (simp add: py_pow2_nonneg)
    have "pow2 eb = of_int (2 ^ nat eb)" using True by (simp add: pow2_nat)
    then show ?thesis using f by (simp add: pp)
  next
    case False
    then have pp: "p = PyFloat (Finite (pow2 eb))" using p e1 by (simp add: py_pow2_neg)
    have c: "int_to_float Q = Inr (Finite (of_int Q))" by (rule int_to_float_exact [OF Q])
    show ?thesis using f c pow2_nonzero [of eb] by (simp add: pp)
  qed
qed

lemma py_pow2_ok:
  assumes "- 900 \<le> eb" and "eb \<le> 52"
  shows "\<exists>p. py_pow2 eb = Inr p"
  using assms by (cases "0 \<le> eb") (simp_all add: py_pow2_nonneg py_pow2_neg)

lemma floor_abs_le:
  fixes X :: rat
  assumes "\<bar>X\<bar> \<le> of_int B"
  shows "\<bar>\<lfloor>X\<rfloor>\<bar> \<le> B"
proof -
  have "X \<le> of_int B" using assms by linarith
  then have "\<lfloor>X\<rfloor> \<le> B" using floor_mono [of X "of_int B"] by simp
  moreover have "of_int (- B) \<le> X" using assms by simp
  then have "- B \<le> \<lfloor>X\<rfloor>" by (simp only: le_floor_iff)
  ultimately show ?thesis by simp
qed

lemma quantize_exact:
  fixes a n eb :: int
  assumes n: "1 \<le> n" and nb: "n < 2 ^ 52" and ab: "\<bar>a\<bar> * 2 ^ nat eb < 2 ^ 52"
    and e1: "- 900 \<le> eb" and e2: "eb \<le> 52"
  shows "quantize n mr eb (NpFloat (Finite (of_int a)))
           = Inr (PyFloat (Finite (exact_quantize n mr eb a)))"
proof -
  define X where "X = rat_of_int a / of_int n * pow2 eb"
  from scaled_exact [OF n nb ab e1 e2] obtain q where q:
    "fl (of_int a / of_int n) = Finite q"
    "fl (q * pow2 eb) = Finite (q * pow2 eb)"
    "\<lfloor>q * pow2 eb\<rfloor> = \<lfloor>X\<rfloor>"
    "py_round (q * pow2 eb) = py_round X" unfolding X_def by blast
  from py_pow2_ok [OF e1 e2] obtain p where p: "py_pow2 eb = Inr p" by blast
  have "\<bar>n\<bar> \<le> 2 ^ 53" using n nb by simp
  then have cn: "int_to_float n = Inr (Finite (of_int n))" by (rule int_to_float_exact)
  have n0: "rat_of_int n \<noteq> 0" using n by simp
  have mean: "py_truediv (NpFloat (Finite (of_int a))) (PyInt n) = Inr (NpFloat (Finite q))"
    using cn n0 q(1) by simp
  have scaled: "py_mul (NpFloat (Finite q)) p = Inr (NpFloat (Finite (q * pow2 eb)))"
    by (rule mul_pow2 [OF e1 e2 p q(2)])
  define Q where "Q = (if mr then py_round X else \<lfloor>X\<rfloor>)"
  define r where "r = (if mr then PyInt Q else NpFloat (Finite (of_int Q)))"
  have rnd: "(if mr then builtin_round (NpFloat (Finite (q * pow2 eb)))
              else np_floor (NpFloat (Finite (q * pow2 eb)))) = Inr r"
    using q(3,4) by (simp add: Q_def r_def np_floor_def)
  have rq: "py_int r = Inr Q" by (simp add: r_def trunc0_def)
  have Xb: "\<bar>X\<bar> \<le> of_int (2 ^ 53)"
  proof -
    have nr: "1 \<le> rat_of_int n" using n by simp
    have "\<bar>X\<bar> = \<bar>rat_of_int a\<bar> / of_int n * pow2 eb"
      using n pow2_pos [of eb] by (simp add: X_def abs_mult abs_divide)
    also have "\<dots> \<le> \<bar>rat_of_int a\<bar> / 1 * of_int (2 ^ nat eb)"
      using nr pow2_le_nat [of eb] pow2_pos [of eb]
      by (intro mult_mono divide_left_mono) simp_all
    also have "\<dots> = rat_of_int (\<bar>a\<bar> * 2 ^ nat eb)" by simp
    also have "\<dots> \<le> of_int (2 ^ 53)" using ab by (simp only: of_int_le_iff) simp
    finally show ?thesis .
  qed
  have Qb: "\<bar>Q\<bar> \<le> 2 ^ 53"
    unfolding Q_def using floor_abs_le [OF Xb] py_round_abs_le [OF Xb] by simp
  have final: "py_truediv (PyInt Q) p = Inr (PyFloat (Finite (of_int Q / pow2 eb)))"
    by (rule div_pow2 [OF e1 e2 p Qb])
  have "exact_quantize n mr eb a = of_int Q / pow2 eb"
    by (simp add: exact_quantize_def Q_def X_def Let_def)
  then show ?thesis
    unfolding quantize_def by (simp only: mean p scaled rnd rq final py_bind_Inr)
qed

section \<open>The loop in the exact range\<close>

lemma run_append:
  "run n mr eb (xs @ ys) s = py_bind (run n mr eb xs s) (run n mr eb ys)"
proof (induction xs arbitrary: s)
  case Nil
  show ?case by simp
next
  case (Cons x xs)
  show ?case
  proof (cases "step n mr eb s x")
    case (Inl e)
    then show ?thesis by simp
  next
    case (Inr s')
    then show ?thesis using Cons.IH [of s'] by simp
  qed
qed

lemma step_empty: "sreg s = [] \<Longrightarrow> step n mr eb s x = Inl IndexError"
  by (simp add: step_def deque_pop_def)

lemma step_unfold:
  assumes "sreg s \<noteq> []"
    and "py_sub (PyInt x) (last (sreg s)) = Inr d"
    and "py_add (acc s) d = Inr a"
    and "quantize n mr eb a = Inr v"
  shows "step n mr eb s x =
           Inr \<lparr>sreg = PyInt x # butlast (sreg s), acc = a, result = result s @ [v]\<rparr>"
  using assms by (simp add: step_def deque_pop_def deque_appendleft_def)

lemma window_ok_Cons:
  "window_ok B (x # w) \<longleftrightarrow>
     (x = NpFloat (Finite 0) \<or> (\<exists>z. x = PyInt z \<and> \<bar>z\<bar> \<le> B)) \<and> window_ok B w"
  by (simp add: window_ok_def)

lemma window_ok_butlast: "window_ok B w \<Longrightarrow> window_ok B (butlast w)"
  by (auto simp: window_ok_def dest: in_set_butlastD)

lemma window_ok_take: "window_ok B w \<Longrightarrow> window_ok B (take m w)"
  by (auto simp: window_ok_def dest: in_set_takeD)

lemma window_ok_last:
  "window_ok B w \<Longrightarrow> w \<noteq> [] \<Longrightarrow>
     last w = NpFloat (Finite 0) \<or> (\<exists>z. last w = PyInt z \<and> \<bar>z\<bar> \<le> B)"
  by (auto simp: window_ok_def)

lemma ival_sum_bound:
  assumes "window_ok B w" and "0 \<le> B"
  shows "\<bar>sum_list (map ival w)\<bar> \<le> int (length w) * B"
  using assms(1)
proof (induction w)
  case Nil
  show ?case by simp
next
  case (Cons x w)
  then have w: "\<bar>sum_list (map ival w)\<bar> \<le> int (length w) * B"
    by (simp add: window_ok_Cons)
  have "\<bar>ival x\<bar> \<le> B" using Cons.prems assms(2) by (auto simp: window_ok_Cons)
  then show ?case using w by (simp add: algebra_simps)
qed

lemma ival_sum_butlast:
  "w \<noteq> [] \<Longrightarrow> sum_list (map ival (butlast w)) = sum_list (map ival w) - ival (last w)"
  by (induction w) auto

lemma window_total_ival:
  "window_ok B w \<Longrightarrow> window_total w = Finite (of_int (sum_list (map ival w)))"
proof (induction w)
  case Nil
  show ?case by (simp add: window_total_def)
next
  case (Cons x w)
  then have "window_total w = Finite (of_int (sum_list (map ival w)))"
    by (simp add: window_ok_Cons)
  then have t: "foldr (\<lambda>x. exact_add (value_of x)) w (Finite 0)
                  = Finite (of_int (sum_list (map ival w)))"
    by (simp add: window_total_def)
  from Cons.prems show ?case by (auto simp: window_ok_Cons window_total_def t)
qed

lemma range_facts:
  fixes n B eb :: int
  assumes n1: "1 \<le> n" and B1: "1 \<le> B" and rng: "n * B * 2 ^ nat eb < 2 ^ 52"
  shows "n < 2 ^ 52" and "B < 2 ^ 52" and "eb \<le> 52" and "n * B < 2 ^ 52"
    and "\<And>W. \<bar>W\<bar> \<le> n * B \<Longrightarrow> \<bar>W\<bar> * 2 ^ nat eb < 2 ^ 52"
proof -
  have p1: "(1::int) \<le> 2 ^ nat eb" by simp
  have nB: "1 \<le> n * B" using n1 B1 by (simp add: mult_le_cancel_left1 order_trans [OF _ mult_mono [of 1 n 1 B]])
  have "n * B * 1 \<le> n * B * 2 ^ nat eb" using nB p1 by (intro mult_left_mono) simp_all
  then show nb: "n * B < 2 ^ 52" using rng by simp
  have "n * 1 \<le> n * B" using n1 B1 by (intro mult_left_mono) simp_all
  then show "n < 2 ^ 52" using nb by simp
  have "1 * B \<le> n * B" using n1 B1 by (intro mult_right_mono) simp_all
  then show "B < 2 ^ 52" using nb by simp
  from mult_right_mono [OF nB, of "2 ^ nat eb"]
  have "(2::int) ^ nat eb \<le> n * B * 2 ^ nat eb" by simp
  then have "(2::int) ^ nat eb < 2 ^ 52" using rng by linarith
  then have "nat eb < 52" by (simp only: power_strict_increasing_iff) 
  then show "eb \<le> 52" by simp
  fix W :: int
  assume "\<bar>W\<bar> \<le> n * B"
  from mult_right_mono [OF this, of "2 ^ nat eb"]
  have "\<bar>W\<bar> * 2 ^ nat eb \<le> n * B * 2 ^ nat eb" by simp
  then show "\<bar>W\<bar> * 2 ^ nat eb < 2 ^ 52" using rng by linarith
qed

lemma f64_add_int:
  assumes "\<bar>a + b\<bar> \<le> 2 ^ 53"
  shows "f64_add (Finite (of_int a)) (Finite (of_int b)) = Finite (of_int (a + b))"
  using fl_int [OF assms] by simp

lemma step_range:
  assumes n1: "1 \<le> n" and B1: "1 \<le> B" and rng: "n * B * 2 ^ nat eb < 2 ^ 52"
    and e1: "- 900 \<le> eb" and inv: "loop_inv n B s" and x: "\<bar>x\<bar> \<le> B"
  shows "\<exists>s'. step n mr eb s x = Inr s' \<and> loop_inv n B s'
           \<and> sreg s' = PyInt x # butlast (sreg s)
           \<and> acc s' = NpFloat (Finite (of_int (sum_list (map ival (sreg s')))))
           \<and> result s' = result s @
                [PyFloat (Finite (exact_quantize n mr eb (sum_list (map ival (sreg s')))))]"
proof -
  define w where "w = sreg s"
  define W where "W = sum_list (map ival w)"
  define w' where "w' = PyInt x # butlast w"
  define W' where "W' = sum_list (map ival w')"
  note rf = range_facts [OF n1 B1 rng]
  have len: "length w = nat n" and ok: "window_ok B w" using inv by (simp_all add: loop_inv_def w_def)
  have ne: "w \<noteq> []" using len n1 by auto
  have len': "length w' = nat n" using ne len by (cases w) (auto simp: w'_def)
  have ok': "window_ok B w'" using ok x by (simp add: w'_def window_ok_Cons window_ok_butlast)
  have W'eq: "W' = x + (W - ival (last w))"
    using ne by (simp add: W'_def w'_def W_def ival_sum_butlast)
  have B0: "0 \<le> B" using B1 by simp
  have "\<bar>W'\<bar> \<le> int (length w') * B" unfolding W'_def by (rule ival_sum_bound [OF ok' B0])
  then have W'b: "\<bar>W'\<bar> \<le> n * B" using len' n1 by simp
  then have W'53: "\<bar>W'\<bar> \<le> 2 ^ 53" using rf(4) by simp
  have x53: "\<bar>x\<bar> \<le> 2 ^ 53" using x rf(2) by simp
  have cx: "int_to_float x = Inr (Finite (of_int x))" by (rule int_to_float_exact [OF x53])
  have c0: "int_to_float 0 = Inr (Finite 0)" using int_to_float_exact [of 0] by simp
  have upd: "\<exists>d. py_sub (PyInt x) (last w) = Inr d
                \<and> py_add (acc s) d = Inr (NpFloat (Finite (of_int W')))"
  proof -
    from window_ok_last [OF ok ne]
    consider (zero) "last w = NpFloat (Finite 0)"
      | (int) z0 where "last w = PyInt z0" "\<bar>z0\<bar> \<le> B" by blast
    then show ?thesis
    proof cases
      case zero
      have fx: "fl (of_int x) = Finite (of_int x)" by (rule fl_int [OF x53])
      have d: "py_sub (PyInt x) (last w) = Inr (NpFloat (Finite (of_int x)))"
        using cx fx by (simp add: zero float_op_def f64_sub_def)
      have W'x: "W' = W + x" using zero by (simp add: W'eq)
      from inv consider (float) "acc s = NpFloat (Finite (of_int W))"
        | (init) "acc s = PyInt 0" "\<forall>y\<in>set w. y = NpFloat (Finite 0)"
        by (auto simp: loop_inv_def w_def W_def)
      then show ?thesis
      proof cases
        case float
        have "\<bar>W + x\<bar> \<le> 2 ^ 53" using W'53 by (simp add: W'x)
        then have "f64_add (Finite (of_int W)) (Finite (of_int x)) = Finite (of_int (W + x))"
          by (rule f64_add_int)
        then show ?thesis using d by (simp add: float float_op_def W'x)
      next
        case init
        have "\<forall>y\<in>set w. ival y = 0" using init(2) by auto
        then have "W = 0" unfolding W_def by (induction w) auto
        then have "W' = x" by (simp add: W'x)
        then show ?thesis using d c0 fx by (simp add: init(1) float_op_def)
      qed
    next
      case int
      have d: "py_sub (PyInt x) (last w) = Inr (PyInt (x - z0))" by (simp add: int(1))
      have "last w \<in> set w" using ne by simp
      then have "\<not> (\<forall>y\<in>set w. y = NpFloat (Finite 0))" using int(1) by auto
      then have a: "acc s = NpFloat (Finite (of_int W))"
        using inv by (auto simp: loop_inv_def w_def W_def)
      have W'o: "W' = W + (x - z0)" using int(1) by (simp add: W'eq)
      have "\<bar>x - z0\<bar> \<le> 2 ^ 53" using x int(2) rf(2) by simp
      then have co: "int_to_float (x - z0) = Inr (Finite (of_int (x - z0)))"
        by (rule int_to_float_exact)
      have "\<bar>W + (x - z0)\<bar> \<le> 2 ^ 53" using W'53 by (simp add: W'o)
      then have "f64_add (Finite (of_int W)) (Finite (of_int (x - z0)))
                   = Finite (of_int (W + (x - z0)))"
        by (rule f64_add_int)
      then show ?thesis using d co by (simp add: a float_op_def W'o)
    qed
  qed
  then obtain d where d: "py_sub (PyInt x) (last (sreg s)) = Inr d"
    "py_add (acc s) d = Inr (NpFloat (Finite (of_int W')))" by (auto simp: w_def)
  have q: "quantize n mr eb (NpFloat (Finite (of_int W')))
             = Inr (PyFloat (Finite (exact_quantize n mr eb W')))"
    by (rule quantize_exact [OF n1 rf(1) rf(5) [OF W'b] e1 rf(3)])
  have ne': "sreg s \<noteq> []" using ne by (simp add: w_def)
  have st: "step n mr eb s x =
              Inr \<lparr>sreg = w', acc = NpFloat (Finite (of_int W')),
                   result = result s @ [PyFloat (Finite (exact_quantize n mr eb W'))]\<rparr>"
    using step_unfold [OF ne' d q] by (simp add: w'_def w_def)
  show ?thesis
    unfolding st using len' ok' by (simp add: loop_inv_def W'_def w'_def w_def)
qed

lemma take_append_take:
  "take n (xs @ take n ys) = take n (xs @ ys)"
  by (simp add: min_def)

lemma butlast_as_take:
  assumes "length w = m" and "0 < m"
  shows "x # butlast w = take m (x # w)"
proof -
  obtain j where j: "m = Suc j" using assms(2) by (cases m) auto
  then show ?thesis using assms(1) by (simp add: butlast_conv_take)
qed

lemma run_range:
  assumes n1: "1 \<le> n" and B1: "1 \<le> B" and rng: "n * B * 2 ^ nat eb < 2 ^ 52"
    and e1: "- 900 \<le> eb" and inv: "loop_inv n B s" and xs: "\<forall>x\<in>set xs. \<bar>x\<bar> \<le> B"
  shows "\<exists>s'. run n mr eb xs s = Inr s' \<and> loop_inv n B s'
           \<and> sreg s' = take (nat n) (map PyInt (rev xs) @ sreg s)
           \<and> (\<exists>ys. result s' = result s @ ys \<and> length ys = length xs)
           \<and> (xs \<noteq> [] \<longrightarrow> acc s' = NpFloat (Finite (of_int (sum_list (map ival (sreg s'))))))"
  using inv xs
proof (induction xs arbitrary: s)
  case Nil
  then have "length (sreg s) = nat n" by (simp add: loop_inv_def)
  with Nil show ?case by simp
next
  case (Cons x xs)
  have x: "\<bar>x\<bar> \<le> B" and xs': "\<forall>y\<in>set xs. \<bar>y\<bar> \<le> B" using Cons.prems(2) by simp_all
  have len: "length (sreg s) = nat n" using Cons.prems(1) by (simp add: loop_inv_def)
  from step_range [OF n1 B1 rng e1 Cons.prems(1) x, of mr]
  obtain s1 where s1: "step n mr eb s x = Inr s1" "loop_inv n B s1"
    "sreg s1 = PyInt x # butlast (sreg s)"
    "acc s1 = NpFloat (Finite (of_int (sum_list (map ival (sreg s1)))))"
    "result s1 = result s @
       [PyFloat (Finite (exact_quantize n mr eb (sum_list (map ival (sreg s1)))))]"
    by blast
  from Cons.IH [OF s1(2) xs']
  obtain s' ys where s': "run n mr eb xs s1 = Inr s'" "loop_inv n B s'"
    "sreg s' = take (nat n) (map PyInt (rev xs) @ sreg s1)"
    "result s' = result s1 @ ys" "length ys = length xs"
    "xs \<noteq> [] \<longrightarrow> acc s' = NpFloat (Finite (of_int (sum_list (map ival (sreg s')))))"
    by blast
  have n0: "0 < nat n" using n1 by simp
  have "sreg s1 = take (nat n) (PyInt x # sreg s)"
    unfolding s1(3) by (rule butlast_as_take [OF len n0])
  then have sr: "sreg s' = take (nat n) (map PyInt (rev (x # xs)) @ sreg s)"
    using s'(3) take_append_take [of "nat n" "map PyInt (rev xs)" "PyInt x # sreg s"]
    by simp
  have a: "acc s' = NpFloat (Finite (of_int (sum_list (map ival (sreg s')))))"
  proof (cases "xs = []")
    case True
    then have "s' = s1" using s'(1) by simp
    then show ?thesis using s1(4) by simp
  next
    case False
    then show ?thesis using s'(6) by simp
  qed
  have run: "run n mr eb (x # xs) s = Inr s'" using s1(1) s'(1) by simp
  have res: "\<exists>zs. result s' = result s @ zs \<and> length zs = length (x # xs)"
    using s1(5) s'(4,5) by simp
  show ?case using run s'(2) sr res a by blast
qed

lemma run_range_snoc:
  assumes n1: "1 \<le> n" and B1: "1 \<le> B" and rng: "n * B * 2 ^ nat eb < 2 ^ 52"
    and e1: "- 900 \<le> eb" and inv: "loop_inv n B s"
    and xs: "\<forall>y\<in>set xs. \<bar>y\<bar> \<le> B" and x: "\<bar>x\<bar> \<le> B"
  shows "\<exists>s'. run n mr eb (xs @ [x]) s = Inr s' \<and> loop_inv n B s'
           \<and> sreg s' = take (nat n) (map PyInt (rev (xs @ [x])) @ sreg s)
           \<and> acc s' = NpFloat (Finite (of_int (sum_list (map ival (sreg s')))))
           \<and> length (result s') = Suc (length (result s) + length xs)
           \<and> last (result s')
               = PyFloat (Finite (exact_quantize n mr eb (sum_list (map ival (sreg s')))))"
proof -
  from run_range [OF n1 B1 rng e1 inv xs, of mr]
  obtain s1 zs where s1: "run n mr eb xs s = Inr s1" "loop_inv n B s1"
    "sreg s1 = take (nat n) (map PyInt (rev xs) @ sreg s)"
    "result s1 = result s @ zs" "length zs = length xs" by blast
  from step_range [OF n1 B1 rng e1 s1(2) x, of mr]
  obtain s2 where s2: "step n mr eb s1 x = Inr s2" "loop_inv n B s2"
    "sreg s2 = PyInt x # butlast (sreg s1)"
    "acc s2 = NpFloat (Finite (of_int (sum_list (map ival (sreg s2)))))"
    "result s2 = result s1 @
       [PyFloat (Finite (exact_quantize n mr eb (sum_list (map ival (sreg s2)))))]"
    by blast
  have run: "run n mr eb (xs @ [x]) s = Inr s2" using s1(1) s2(1) by (simp add: run_append)
  have len1: "length (sreg s1) = nat n" using s1(2) by (simp add: loop_inv_def)
  have n0: "0 < nat n" using n1 by simp
  have "sreg s2 = take (nat n) (PyInt x # sreg s1)"
    unfolding s2(3) by (rule butlast_as_take [OF len1 n0])
  then have sr: "sreg s2 = take (nat n) (map PyInt (rev (xs @ [x])) @ sreg s)"
    using s1(3) take_append_take [of "nat n" "[PyInt x]" "map PyInt (rev xs) @ sreg s"]
    by simp
  show ?thesis using run s2(2,4,5) sr s1(4,5) by simp
qed

lemma init_inv:
  "0 \<le> n \<Longrightarrow>
     loop_inv n B \<lparr>sreg = replicate (nat n) (NpFloat (Finite 0)), acc = PyInt 0, result = []\<rparr>"
  by (simp add: loop_inv_def window_ok_def)

lemma fpga_state_unfold:
  "0 \<le> n \<Longrightarrow> fpga_state xs n mr eb =
     run n mr eb xs \<lparr>sreg = replicate (nat n) (NpFloat (Finite 0)), acc = PyInt 0, result = []\<rparr>"
  by (simp add: fpga_state_def np_zeros_def)

lemma fpga_state_append:
  "fpga_state (xs @ ys) n mr eb = py_bind (fpga_state xs n mr eb) (run n mr eb ys)"
proof (cases "0 \<le> n")
  case True
  then show ?thesis by (simp add: fpga_state_unfold run_append)
next
  case False
  then show ?thesis by (simp add: fpga_state_def np_zeros_def)
qed

lemma fpga_state_split:
  assumes "fpga_state (take k samples) n mr eb = Inr s"
  shows "fpga_state samples n mr eb = run n mr eb (drop k samples) s"
  using fpga_state_append [of "take k samples" "drop k samples" n mr eb] assms by simp

lemma window_ints:
  "sum_list (map ival (take m (map PyInt ys @ replicate m (NpFloat (Finite 0)))))
     = sum_list (take m ys)"
proof -
  have z: "sum_list (replicate j (0::int)) = 0" for j
    by (induction j) auto
  have "map ival (take m (map PyInt ys)) = take m ys"
    by (simp add: take_map [symmetric] comp_def del: take_map)
  then show ?thesis by (simp add: z del: take_map)
qed


lemma fpga_prefix_range:
  assumes n1: "1 \<le> n" and B1: "1 \<le> B" and rng: "n * B * 2 ^ nat eb < 2 ^ 52"
    and e1: "- 900 \<le> eb" and xs: "\<forall>x\<in>set samples. \<bar>x\<bar> \<le> B" and k: "k < length samples"
  shows "\<exists>s r. fpga_state (take (Suc k) samples) n mr eb = Inr s
           \<and> sreg s = take (nat n) (map PyInt (rev (take (Suc k) samples))
                                     @ replicate (nat n) (NpFloat (Finite 0)))
           \<and> acc s = NpFloat (Finite (of_int
                        (sum_list (take (nat n) (rev (take (Suc k) samples))))))
           \<and> fpga_moving_integrator samples n mr eb = Inr r
           \<and> length r = length samples
           \<and> r ! k = PyFloat (Finite (exact_quantize n mr eb
                        (sum_list (take (nat n) (rev (take (Suc k) samples))))))"
proof -
  let ?s0 = "\<lparr>sreg = replicate (nat n) (NpFloat (Finite 0)), acc = PyInt 0, result = []\<rparr>"
  let ?A = "sum_list (take (nat n) (rev (take (Suc k) samples)))"
  have n0: "0 \<le> n" using n1 by simp
  have i0: "loop_inv n B ?s0" by (rule init_inv [OF n0])
  have tk: "take (Suc k) samples = take k samples @ [samples ! k]"
    using k by (simp add: take_Suc_conv_app_nth)
  have b1: "\<forall>y\<in>set (take k samples). \<bar>y\<bar> \<le> B" using xs by (auto dest: in_set_takeD)
  have b2: "\<bar>samples ! k\<bar> \<le> B" using xs k by simp
  have b3: "\<forall>y\<in>set (drop (Suc k) samples). \<bar>y\<bar> \<le> B" using xs by (auto dest: in_set_dropD)
  from run_range_snoc [OF n1 B1 rng e1 i0 b1 b2, of mr]
  obtain s1 where s1: "run n mr eb (take (Suc k) samples) ?s0 = Inr s1" "loop_inv n B s1"
    "sreg s1 = take (nat n) (map PyInt (rev (take (Suc k) samples))
                              @ replicate (nat n) (NpFloat (Finite 0)))"
    "acc s1 = NpFloat (Finite (of_int (sum_list (map ival (sreg s1)))))"
    "length (result s1) = Suc k"
    "last (result s1) = PyFloat (Finite (exact_quantize n mr eb (sum_list (map ival (sreg s1)))))"
    using k by (auto simp: tk)
  have A: "sum_list (map ival (sreg s1)) = ?A" unfolding s1(3) by (rule window_ints)
  from run_range [OF n1 B1 rng e1 s1(2) b3, of mr]
  obtain s2 ys where s2: "run n mr eb (drop (Suc k) samples) s1 = Inr s2"
    "result s2 = result s1 @ ys" "length ys = length (drop (Suc k) samples)" by blast
  have st: "fpga_state (take (Suc k) samples) n mr eb = Inr s1"
    using s1(1) n0 by (simp add: fpga_state_unfold)
  have full: "fpga_state samples n mr eb = Inr s2"
    using fpga_state_split [OF st] s2(1) by simp
  have "result s1 \<noteq> []" using s1(5) by auto
  then have "last (result s1) = result s1 ! k" using s1(5) by (simp add: last_conv_nth)
  then have nth: "result s2 ! k = last (result s1)" using s1(5) s2(2) by (simp add: nth_append)
  have len: "length (result s2) = length samples" using s1(5) s2(2,3) k by simp
  have r: "fpga_moving_integrator samples n mr eb = Inr (result s2)"
    using full by (simp add: fpga_moving_integrator_def)
  show ?thesis using st s1(3,4,6) A r len nth by simp
qed

section \<open>Rounding to binary64 is monotone\<close>

lemma pow2_53_mult: "pow2 53 * pow2 (e - 52) = pow2 (e + 1)"
proof -
  have "53 + (e - 52) = e + 1" by simp
  then show ?thesis by (simp only: pow2_add [symmetric])
qed

lemma pow2_52_mult: "pow2 52 * pow2 (e - 52) = pow2 e"
proof -
  have "52 + (e - 52) = e" by simp
  then show ?thesis by (simp only: pow2_add [symmetric])
qed

lemma round53_minus: "round53 (- x) = - round53 x"
  by (simp add: round53_def expo_minus Let_def py_round_minus)

lemma round53_nonneg: "0 \<le> x \<Longrightarrow> 0 \<le> round53 x"
proof -
  assume x: "0 \<le> x"
  define u where "u = pow2 (max (expo x) (- 1022) - 52)"
  have u: "0 < u" by (simp add: u_def pow2_pos)
  have "0 \<le> x / u" using x u by simp
  then have "py_round 0 \<le> py_round (x / u)" by (rule py_round_mono)
  then have "0 \<le> py_round (x / u)" by (simp add: py_round_def)
  then show ?thesis using u by (simp add: round53_def Let_def u_def)
qed

lemma round53_mono_pos:
  assumes x: "0 < x" and xy: "x \<le> y"
  shows "round53 x \<le> round53 y"
proof -
  have y: "0 < y" using x xy by simp
  have x0: "x \<noteq> 0" and y0: "y \<noteq> 0" using x y by simp_all
  define ex where "ex = max (expo x) (- 1022)"
  define ey where "ey = max (expo y) (- 1022)"
  define ux where "ux = pow2 (ex - 52)"
  define uy where "uy = pow2 (ey - 52)"
  have ux: "0 < ux" and uy: "0 < uy" by (simp_all add: ux_def uy_def pow2_pos)
  have rx: "round53 x = of_int (py_round (x / ux)) * ux"
    using x0 by (simp add: round53_def Let_def ux_def ex_def)
  have ry: "round53 y = of_int (py_round (y / uy)) * uy"
    using y0 by (simp add: round53_def Let_def uy_def ey_def)
  have "pow2 (expo x) \<le> \<bar>x\<bar>" by (rule expo_bounds(1) [OF x0])
  also have "\<bar>x\<bar> \<le> \<bar>y\<bar>" using x xy by simp
  also have "\<bar>y\<bar> < pow2 (expo y + 1)" by (rule expo_bounds(2) [OF y0])
  finally have "expo x < expo y + 1" by (simp add: pow2_less_iff)
  then have exy: "ex \<le> ey" by (simp add: ex_def ey_def)
  show ?thesis
  proof (cases "ex = ey")
    case True
    then have "ux = uy" by (simp add: ux_def uy_def)
    then have "x / ux \<le> y / uy" using xy uy by (simp add: divide_right_mono)
    then have "py_round (x / ux) \<le> py_round (y / uy)" by (rule py_round_mono)
    then have "rat_of_int (py_round (x / ux)) \<le> of_int (py_round (y / uy))"
      by (simp only: of_int_le_iff)
    then show ?thesis unfolding rx ry using \<open>ux = uy\<close> uy by (simp add: mult_right_mono)
  next
    case False
    then have lt: "ex < ey" using exy by simp
    then have eyn: "ey = expo y" unfolding ex_def ey_def by linarith
    \<comment> \<open>the smaller number rounds to at most the next power of two\<close>
    have "\<bar>x\<bar> < pow2 (expo x + 1)" by (rule expo_bounds(2) [OF x0])
    also have "\<dots> \<le> pow2 (ex + 1)" by (simp add: pow2_mono ex_def)
    also have "\<dots> = pow2 53 * ux" by (simp only: ux_def pow2_53_mult)
    finally have "x / ux \<le> of_int (2 ^ 53)"
      using x ux unfolding pow2_numeral_53 by (simp add: pos_divide_le_eq)
    then have "py_round (x / ux) \<le> py_round (of_int (2 ^ 53))" by (rule py_round_mono)
    then have "py_round (x / ux) \<le> 2 ^ 53" by (simp only: py_round_of_int)
    then have "rat_of_int (py_round (x / ux)) \<le> of_int (2 ^ 53)"
      by (simp only: of_int_le_iff)
    then have "round53 x \<le> of_int (2 ^ 53) * ux"
      unfolding rx using ux by (simp only: mult_right_mono less_imp_le)
    also have "\<dots> = pow2 (ex + 1)"
      unfolding pow2_numeral_53 [symmetric] by (simp only: ux_def pow2_53_mult)
    also have "\<dots> \<le> pow2 ey" using lt by (simp add: pow2_mono)
    finally have a: "round53 x \<le> pow2 ey" .
    \<comment> \<open>the larger number rounds to at least the power of two below it\<close>
    have "pow2 ey \<le> \<bar>y\<bar>" unfolding eyn by (rule expo_bounds(1) [OF y0])
    moreover have "pow2 ey = pow2 52 * uy" by (simp only: uy_def pow2_52_mult)
    ultimately have "of_int (2 ^ 52) \<le> y / uy"
      using y uy unfolding pow2_numeral_52 by (simp add: pos_le_divide_eq)
    then have "py_round (of_int (2 ^ 52)) \<le> py_round (y / uy)" by (rule py_round_mono)
    then have "2 ^ 52 \<le> py_round (y / uy)" by (simp only: py_round_of_int)
    then have "rat_of_int (2 ^ 52) \<le> of_int (py_round (y / uy))"
      by (simp only: of_int_le_iff)
    then have "of_int (2 ^ 52) * uy \<le> round53 y"
      unfolding ry using uy by (simp only: mult_right_mono less_imp_le)
    moreover have "of_int (2 ^ 52) * uy = pow2 ey"
      unfolding pow2_numeral_52 [symmetric] by (simp only: uy_def pow2_52_mult)
    ultimately have b: "pow2 ey \<le> round53 y" by simp
    show ?thesis using a b by simp
  qed
qed

lemma round53_mono:
  assumes "x \<le> y"
  shows "round53 x \<le> round53 y"
proof -
  consider "0 < x" | "x \<le> 0" "0 \<le> y" | "y < 0" by linarith
  then show ?thesis
  proof cases
    case 1
    then show ?thesis using assms by (rule round53_mono_pos)
  next
    case 2
    have "0 \<le> round53 (- x)" using 2(1) by (intro round53_nonneg) simp
    then have "round53 x \<le> 0" by (simp add: round53_minus)
    moreover have "0 \<le> round53 y" using 2(2) by (rule round53_nonneg)
    ultimately show ?thesis by simp
  next
    case 3
    have "round53 (- y) \<le> round53 (- x)" using 3 assms by (intro round53_mono_pos) simp_all
    then show ?thesis by (simp add: round53_minus)
  qed
qed

lemma fl_mono:
  assumes "x \<le> y"
  shows "f64_le (fl x) (fl y)"
  using round53_mono [OF assms] pow2_pos [of 1024]
  by (auto simp: fl_def Let_def)

lemma fl_overflow:
  assumes "pow2 1024 \<le> x"
  shows "fl x = PosInf"
proof -
  have x: "0 < x" using assms pow2_pos [of 1024] by simp
  then have x0: "x \<noteq> 0" by simp
  have "pow2 1024 \<le> \<bar>x\<bar>" using assms by simp
  then have e: "1024 \<le> expo x" by (rule expo_ge [OF x0])
  define u where "u = pow2 (expo x - 52)"
  have u: "0 < u" by (simp add: u_def pow2_pos)
  have r: "round53 x = of_int (py_round (x / u)) * u"
    using x0 e by (simp add: round53_def Let_def u_def max_def)
  have "pow2 (expo x) \<le> \<bar>x\<bar>" by (rule expo_bounds(1) [OF x0])
  moreover have "pow2 (expo x) = pow2 52 * u" by (simp only: u_def pow2_52_mult)
  ultimately have "of_int (2 ^ 52) \<le> x / u"
    using x u unfolding pow2_numeral_52 by (simp add: pos_le_divide_eq)
  then have "py_round (of_int (2 ^ 52)) \<le> py_round (x / u)" by (rule py_round_mono)
  then have "2 ^ 52 \<le> py_round (x / u)" by (simp only: py_round_of_int)
  then have "rat_of_int (2 ^ 52) \<le> of_int (py_round (x / u))" by (simp only: of_int_le_iff)
  then have "of_int (2 ^ 52) * u \<le> round53 x"
    unfolding r using u by (simp only: mult_right_mono less_imp_le)
  moreover have "of_int (2 ^ 52) * u = pow2 (expo x)"
    unfolding pow2_numeral_52 [symmetric] by (simp only: u_def pow2_52_mult)
  moreover have "pow2 1024 \<le> pow2 (expo x)" using e by (simp add: pow2_mono)
  ultimately have "pow2 1024 \<le> round53 x" by simp
  then show ?thesis by (simp add: fl_def Let_def)
qed

section \<open>Truncation against rounding, on every input\<close>

lemma py_bind_eq_Inr: "py_bind m f = Inr y \<longleftrightarrow> (\<exists>x. m = Inr x \<and> f x = Inr y)"
  by (cases m) simp_all

lemma quantize_floor_Inr:
  assumes "quantize n False eb a = Inr v"
  shows "\<exists>mean p sc r Q. py_truediv a (PyInt n) = Inr mean \<and> py_pow2 eb = Inr p
           \<and> py_mul mean p = Inr sc \<and> np_floor sc = Inr r
           \<and> py_int r = Inr Q \<and> py_truediv (PyInt Q) p = Inr v"
  using assms by (auto simp: quantize_def py_bind_eq_Inr)

lemma quantize_round_Inr:
  assumes "quantize n True eb a = Inr v"
  shows "\<exists>mean p sc r Q. py_truediv a (PyInt n) = Inr mean \<and> py_pow2 eb = Inr p
           \<and> py_mul mean p = Inr sc \<and> builtin_round sc = Inr r
           \<and> py_int r = Inr Q \<and> py_truediv (PyInt Q) p = Inr v"
  using assms by (auto simp: quantize_def py_bind_eq_Inr)

lemma step_Inr:
  assumes "step n mr eb s x = Inr t"
  shows "sreg s \<noteq> [] \<and> (\<exists>d a v. py_sub (PyInt x) (last (sreg s)) = Inr d
           \<and> py_add (acc s) d = Inr a \<and> quantize n mr eb a = Inr v
           \<and> t = \<lparr>sreg = PyInt x # butlast (sreg s), acc = a, result = result s @ [v]\<rparr>)"
proof -
  have ne: "sreg s \<noteq> []" using assms by (auto simp: step_def deque_pop_def)
  then have "deque_pop (sreg s) = Inr (last (sreg s), butlast (sreg s))"
    by (simp add: deque_pop_def)
  then show ?thesis
    using assms ne by (auto simp: step_def py_bind_eq_Inr deque_appendleft_def)
qed

lemma float_op_Inr:
  assumes "float_op f a b = Inr c"
  shows "\<exists>x y. to_f64 a = Inr x \<and> to_f64 b = Inr y
           \<and> (c = NpFloat (f x y) \<or> c = PyFloat (f x y))"
  using assms by (auto simp: float_op_def py_bind_eq_Inr split: if_splits)

lemma truediv_is_float:
  assumes "py_truediv a b = Inr m"
  shows "\<exists>y. m = PyFloat y \<or> m = NpFloat y"
proof (cases "\<exists>i j. a = PyInt i \<and> b = PyInt j")
  case True
  then show ?thesis using assms by (auto split: if_splits f64.splits)
next
  case False
  then have eq: "py_truediv a b =
     py_bind (to_f64 a) (\<lambda>x. py_bind (to_f64 b) (\<lambda>y.
       if is_np a \<or> is_np b then Inr (NpFloat (f64_div x y))
       else if y = Finite 0 then Inl ZeroDivisionError
       else Inr (PyFloat (f64_div x y))))"
    by (cases a; cases b) simp_all
  from assms [unfolded eq] show ?thesis
    by (auto simp: py_bind_eq_Inr split: if_splits)
qed

lemma mul_float:
  assumes "py_mul m p = Inr sc" and "m = PyFloat y \<or> m = NpFloat y"
  shows "\<exists>t. (sc = PyFloat t \<or> sc = NpFloat t)"
proof -
  have "py_mul m p = float_op f64_mul m p" using assms(2) by (cases p) auto
  then show ?thesis using assms(1) float_op_Inr [of f64_mul m p sc] by auto
qed

lemma f64_to_int_Inr:
  "f64_to_int r y = Inr z \<Longrightarrow> \<exists>t. y = Finite t \<and> z = r t"
  by (cases y) simp_all

lemma quantized_le:
  assumes fl: "np_floor sc = Inr r1" "py_int r1 = Inr Q1"
    and rd: "builtin_round sc = Inr r2" "py_int r2 = Inr Q2"
    and sc: "sc = PyFloat t \<or> sc = NpFloat t"
  shows "Q1 \<le> Q2"
proof -
  have tf: "to_f64 sc = Inr t" using sc by auto
  have r1: "r1 = NpFloat (f64_floor t)" using fl(1) tf by (simp add: np_floor_def)
  then have "f64_to_int trunc0 (f64_floor t) = Inr Q1" using fl(2) by simp
  then obtain u where u: "f64_floor t = Finite u" "Q1 = trunc0 u"
    using f64_to_int_Inr by blast
  then obtain w where w: "t = Finite w" "u = of_int \<lfloor>w\<rfloor>" by (cases t) simp_all
  have Q1: "Q1 = \<lfloor>w\<rfloor>" using u(2) w(2) by (simp add: trunc0_def)
  have "builtin_round sc = py_bind (f64_to_int py_round t) (\<lambda>z. Inr (PyInt z))"
    using sc by auto
  then have "r2 = PyInt (py_round w)" using rd(1) w(1) by simp
  then have Q2: "Q2 = py_round w" using rd(2) by simp
  show ?thesis unfolding Q1 Q2 by (rule floor_le_py_round)
qed

lemma f64_le_Finite_0:
  assumes "f64_le (Finite 0) c"
  shows "c = PosInf \<or> (\<exists>d. c = Finite d \<and> 0 \<le> d)"
  using assms by (cases c) simp_all

lemma final_le:
  assumes Q: "Q1 \<le> Q2" and p: "py_pow2 eb = Inr p"
    and v1: "py_truediv (PyInt Q1) p = Inr v1" and v2: "py_truediv (PyInt Q2) p = Inr v2"
  shows "f64_le (value_of v1) (value_of v2)"
proof (cases "0 \<le> eb")
  case True
  define P :: int where "P = 2 ^ nat eb"
  have P: "0 < P" by (simp add: P_def)
  have pp: "p = PyInt P" using p True by (simp add: py_pow2_def P_def)
  have Pr: "0 < rat_of_int P" using P by simp
  have "rat_of_int Q1 \<le> of_int Q2" using Q by simp
  then have "rat_of_int Q1 / of_int P \<le> of_int Q2 / of_int P"
    using Pr by (simp add: divide_right_mono)
  then have le: "f64_le (fl (of_int Q1 / of_int P)) (fl (of_int Q2 / of_int P))"
    by (rule fl_mono)
  from v1 obtain y1 where y1: "fl (of_int Q1 / of_int P) = Finite y1" "v1 = PyFloat (Finite y1)"
    using P by (auto simp: pp split: f64.splits)
  from v2 obtain y2 where y2: "fl (of_int Q2 / of_int P) = Finite y2" "v2 = PyFloat (Finite y2)"
    using P by (auto simp: pp split: f64.splits)
  show ?thesis using le by (simp add: y1 y2)
next
  case False
  define c where "c = fl (pow2 eb)"
  have pp: "p = PyFloat c" using p False by (auto simp: py_pow2_def c_def py_bind_eq_Inr)
  have "0 \<le> pow2 eb" using pow2_pos [of eb] by simp
  then have "f64_le (fl 0) (fl (pow2 eb))" by (rule fl_mono)
  then have cpos: "c = PosInf \<or> (\<exists>d. c = Finite d \<and> 0 \<le> d)"
    by (intro f64_le_Finite_0) (simp add: c_def)
  from v1 obtain x1 where x1: "int_to_float Q1 = Inr x1" "c \<noteq> Finite 0"
    "v1 = PyFloat (f64_div x1 c)"
    by (auto simp: pp py_bind_eq_Inr split: if_splits)
  from v2 obtain x2 where x2: "int_to_float Q2 = Inr x2" "v2 = PyFloat (f64_div x2 c)"
    by (auto simp: pp py_bind_eq_Inr split: if_splits)
  from x1(1) obtain f1 where f1: "fl (of_int Q1) = Finite f1" "x1 = Finite f1"
    by (auto simp: int_to_float_def split: f64.splits)
  from x2(1) obtain f2 where f2: "fl (of_int Q2) = Finite f2" "x2 = Finite f2"
    by (auto simp: int_to_float_def split: f64.splits)
  have "rat_of_int Q1 \<le> of_int Q2" using Q by simp
  then have "f64_le (fl (of_int Q1)) (fl (of_int Q2))" by (rule fl_mono)
  then have f12: "f1 \<le> f2" by (simp add: f1(1) f2(1))
  from cpos show ?thesis
  proof
    assume "c = PosInf"
    then show ?thesis by (simp add: x1(3) x2(2) f1(2) f2(2))
  next
    assume "\<exists>d. c = Finite d \<and> 0 \<le> d"
    then obtain d where d: "c = Finite d" "0 \<le> d" by blast
    then have d0: "0 < d" using x1(2) by (cases "d = 0") simp_all
    have "f1 / d \<le> f2 / d" using f12 d0 by (simp add: divide_right_mono)
    then have "f64_le (fl (f1 / d)) (fl (f2 / d))" by (rule fl_mono)
    then show ?thesis using d0 by (simp add: x1(3) x2(2) f1(2) f2(2) d(1))
  qed
qed

lemma quantize_le:
  assumes "quantize n False eb a = Inr v1" and "quantize n True eb a = Inr v2"
  shows "f64_le (value_of v1) (value_of v2)"
proof -
  from quantize_floor_Inr [OF assms(1)] obtain mean p sc r1 Q1 where a:
    "py_truediv a (PyInt n) = Inr mean" "py_pow2 eb = Inr p" "py_mul mean p = Inr sc"
    "np_floor sc = Inr r1" "py_int r1 = Inr Q1" "py_truediv (PyInt Q1) p = Inr v1"
    by auto
  from quantize_round_Inr [OF assms(2)] a(1,2,3) obtain r2 Q2 where b:
    "builtin_round sc = Inr r2" "py_int r2 = Inr Q2" "py_truediv (PyInt Q2) p = Inr v2"
    by auto
  from truediv_is_float [OF a(1)] obtain y where "mean = PyFloat y \<or> mean = NpFloat y"
    by blast
  from mul_float [OF a(3) this] obtain t where t: "sc = PyFloat t \<or> sc = NpFloat t"
    by blast
  have "Q1 \<le> Q2" by (rule quantized_le [OF a(4,5) b(1,2) t])
  then show ?thesis using a(2,6) b(3) by (rule final_le)
qed

lemma step_le:
  assumes t1: "step n False eb s1 x = Inr t1" and t2: "step n True eb s2 x = Inr t2"
    and sr: "sreg s1 = sreg s2" and ac: "acc s1 = acc s2"
  shows "sreg t1 = sreg t2 \<and> acc t1 = acc t2
       \<and> (\<exists>v1 v2. result t1 = result s1 @ [v1] \<and> result t2 = result s2 @ [v2]
             \<and> f64_le (value_of v1) (value_of v2))"
proof -
  from step_Inr [OF t1] obtain d a v1 where a:
    "py_sub (PyInt x) (last (sreg s1)) = Inr d" "py_add (acc s1) d = Inr a"
    "quantize n False eb a = Inr v1"
    "t1 = \<lparr>sreg = PyInt x # butlast (sreg s1), acc = a, result = result s1 @ [v1]\<rparr>"
    by blast
  from step_Inr [OF t2] a(1,2) sr ac obtain v2 where b:
    "quantize n True eb a = Inr v2"
    "t2 = \<lparr>sreg = PyInt x # butlast (sreg s2), acc = a, result = result s2 @ [v2]\<rparr>"
    by auto
  have "f64_le (value_of v1) (value_of v2)" by (rule quantize_le [OF a(3) b(1)])
  then show ?thesis using a(4) b(2) sr by simp
qed

lemma run_le:
  assumes "run n False eb xs s1 = Inr t1" and "run n True eb xs s2 = Inr t2"
    and "sreg s1 = sreg s2" and "acc s1 = acc s2"
    and "list_all2 (\<lambda>v1 v2. f64_le (value_of v1) (value_of v2)) (result s1) (result s2)"
  shows "list_all2 (\<lambda>v1 v2. f64_le (value_of v1) (value_of v2)) (result t1) (result t2)
       \<and> length (result t1) = length (result s1) + length xs"
  using assms
proof (induction xs arbitrary: s1 s2)
  case Nil
  then show ?case by simp
next
  case (Cons x xs)
  from Cons.prems(1) obtain u1 where u1: "step n False eb s1 x = Inr u1"
    "run n False eb xs u1 = Inr t1" by (auto simp: py_bind_eq_Inr)
  from Cons.prems(2) obtain u2 where u2: "step n True eb s2 x = Inr u2"
    "run n True eb xs u2 = Inr t2" by (auto simp: py_bind_eq_Inr)
  from step_le [OF u1(1) u2(1) Cons.prems(3,4)] obtain v1 v2 where st:
    "sreg u1 = sreg u2" "acc u1 = acc u2"
    "result u1 = result s1 @ [v1]" "result u2 = result s2 @ [v2]"
    "f64_le (value_of v1) (value_of v2)" by blast
  have rel: "list_all2 (\<lambda>v1 v2. f64_le (value_of v1) (value_of v2)) (result u1) (result u2)"
    using Cons.prems(5) st(3,4,5) by (simp add: list_all2_appendI)
  from Cons.IH [OF u1(2) u2(2) st(1,2) rel] show ?case using st(3) by simp
qed

section \<open>Zero input\<close>

lemma quantize_zero:
  assumes n: "1 \<le> n" "n \<le> 2 ^ 53" and e: "- 1074 \<le> eb" "eb \<le> 1023"
  shows "quantize n mr eb (NpFloat (Finite 0)) = Inr (PyFloat (Finite 0))"
proof -
  have "\<bar>n\<bar> \<le> 2 ^ 53" using n by simp
  then have cn: "int_to_float n = Inr (Finite (of_int n))" by (rule int_to_float_exact)
  have n0: "rat_of_int n \<noteq> 0" using n by simp
  have mean: "py_truediv (NpFloat (Finite 0)) (PyInt n) = Inr (NpFloat (Finite 0))"
    using cn n0 by simp
  have c0: "int_to_float 0 = Inr (Finite 0)" using int_to_float_exact [of 0] by simp
  have fp: "fl (pow2 eb) = Finite (pow2 eb)" by (rule fl_pow2 [OF e])
  have r0: "(if mr then builtin_round (NpFloat (Finite 0)) else np_floor (NpFloat (Finite 0)))
              = Inr (if mr then PyInt 0 else NpFloat (Finite 0))"
    by (simp add: np_floor_def py_round_def)
  have q0: "py_int (if mr then PyInt 0 else NpFloat (Finite 0)) = Inr 0"
    by (simp add: trunc0_def)
  show ?thesis
  proof (cases "0 \<le> eb")
    case True
    have p: "py_pow2 eb = Inr (PyInt (2 ^ nat eb))" using True by (rule py_pow2_nonneg)
    have "rat_of_int (2 ^ nat eb) = pow2 eb" using True by (simp add: pow2_nat)
    then have cp: "int_to_float (2 ^ nat eb) = Inr (Finite (pow2 eb))"
      using fp by (simp add: int_to_float_def)
    have sc: "py_mul (NpFloat (Finite 0)) (PyInt (2 ^ nat eb)) = Inr (NpFloat (Finite 0))"
      using cp by (simp add: float_op_def)
    have fin: "py_truediv (PyInt 0) (PyInt (2 ^ nat eb)) = Inr (PyFloat (Finite 0))"
      by simp
    show ?thesis unfolding quantize_def by (simp only: mean p sc r0 q0 fin py_bind_Inr)
  next
    case False
    then have p: "py_pow2 eb = Inr (PyFloat (Finite (pow2 eb)))"
    proof -
      have "\<bar>eb\<bar> \<le> 2 ^ 53" using e False by simp
      then have "int_to_float eb = Inr (Finite (of_int eb))" by (rule int_to_float_exact)
      then show ?thesis using False fp by (simp add: py_pow2_def)
    qed
    have sc: "py_mul (NpFloat (Finite 0)) (PyFloat (Finite (pow2 eb))) = Inr (NpFloat (Finite 0))"
      by (simp add: float_op_def)
    have fin: "py_truediv (PyInt 0) (PyFloat (Finite (pow2 eb))) = Inr (PyFloat (Finite 0))"
      using c0 pow2_nonzero [of eb] by simp
    show ?thesis unfolding quantize_def by (simp only: mean p sc r0 q0 fin py_bind_Inr)
  qed
qed

lemma step_zero:
  assumes n: "1 \<le> n" "n \<le> 2 ^ 53" and e: "- 1074 \<le> eb" "eb \<le> 1023"
    and inv: "loop_inv n 0 s"
  shows "\<exists>s'. step n mr eb s 0 = Inr s' \<and> loop_inv n 0 s'
           \<and> result s' = result s @ [PyFloat (Finite 0)]"
proof -
  define w where "w = sreg s"
  have len: "length w = nat n" and ok: "window_ok 0 w"
    using inv by (simp_all add: loop_inv_def w_def)
  have ne: "w \<noteq> []" using len n(1) by auto
  have iv: "ival y = 0" if "y \<in> set v" "window_ok 0 v" for y v
    using that by (auto simp: window_ok_def)
  have sum0: "sum_list (map ival v) = 0" if "window_ok 0 v" for v
    using that by (induction v) (auto simp: window_ok_Cons)
  have c0: "int_to_float 0 = Inr (Finite 0)" using int_to_float_exact [of 0] by simp
  have ok': "window_ok 0 (PyInt 0 # butlast w)"
    using ok by (simp add: window_ok_Cons window_ok_butlast)
  have len': "length (PyInt 0 # butlast w) = nat n" using ne len by (cases w) auto
  have upd: "\<exists>d. py_sub (PyInt 0) (last w) = Inr d
                \<and> py_add (acc s) d = Inr (NpFloat (Finite 0))"
  proof -
    from window_ok_last [OF ok ne]
    consider (zero) "last w = NpFloat (Finite 0)" | (int) "last w = PyInt 0" by auto
    then show ?thesis
    proof cases
      case zero
      have d: "py_sub (PyInt 0) (last w) = Inr (NpFloat (Finite 0))"
        using c0 by (simp add: zero float_op_def f64_sub_def)
      from inv consider "acc s = NpFloat (Finite 0)" | "acc s = PyInt 0"
        using sum0 [OF ok] by (auto simp: loop_inv_def w_def)
      then show ?thesis using d c0 by cases (simp_all add: float_op_def)
    next
      case int
      have d: "py_sub (PyInt 0) (last w) = Inr (PyInt 0)" by (simp add: int)
      have "last w \<in> set w" using ne by simp
      then have "\<not> (\<forall>y\<in>set w. y = NpFloat (Finite 0))" using int by auto
      then have "acc s = NpFloat (Finite 0)"
        using inv sum0 [OF ok] by (auto simp: loop_inv_def w_def)
      then show ?thesis using d c0 by (simp add: float_op_def)
    qed
  qed
  then obtain d where d: "py_sub (PyInt 0) (last (sreg s)) = Inr d"
    "py_add (acc s) d = Inr (NpFloat (Finite 0))" by (auto simp: w_def)
  have ne': "sreg s \<noteq> []" using ne by (simp add: w_def)
  have st: "step n mr eb s 0 =
              Inr \<lparr>sreg = PyInt 0 # butlast w, acc = NpFloat (Finite 0),
                   result = result s @ [PyFloat (Finite 0)]\<rparr>"
    using step_unfold [OF ne' d quantize_zero [OF n e]] by (simp add: w_def)
  show ?thesis unfolding st using len' ok' sum0 [OF ok'] by (simp add: loop_inv_def)
qed

lemma run_zero:
  assumes n: "1 \<le> n" "n \<le> 2 ^ 53" and e: "- 1074 \<le> eb" "eb \<le> 1023"
    and inv: "loop_inv n 0 s"
  shows "\<exists>s'. run n mr eb (replicate m 0) s = Inr s' \<and> loop_inv n 0 s'
           \<and> result s' = result s @ replicate m (PyFloat (Finite 0))"
  using inv
proof (induction m arbitrary: s)
  case 0
  then show ?case by simp
next
  case (Suc m)
  from step_zero [OF n e Suc.prems, of mr]
  obtain s1 where s1: "step n mr eb s 0 = Inr s1" "loop_inv n 0 s1"
    "result s1 = result s @ [PyFloat (Finite 0)]" by blast
  from Suc.IH [OF s1(2)]
  obtain s' where s': "run n mr eb (replicate m 0) s1 = Inr s'" "loop_inv n 0 s'"
    "result s' = result s1 @ replicate m (PyFloat (Finite 0))" by blast
  show ?case using s1 s' by (simp add: replicate_app_Cons_same)
qed

section \<open>Closed form of the result, and runs of one sample\<close>

lemma fpga_exact_range:
  assumes n1: "1 \<le> n" and B1: "1 \<le> B" and rng: "n * B * 2 ^ nat eb < 2 ^ 52"
    and e1: "- 900 \<le> eb" and xs: "\<forall>x\<in>set samples. \<bar>x\<bar> \<le> B"
  shows "fpga_moving_integrator samples n mr eb =
           Inr (map (\<lambda>k. PyFloat (Finite (exact_quantize n mr eb
                  (sum_list (take (nat n) (rev (take (Suc k) samples)))))))
                [0..<length samples])"
proof (cases "samples = []")
  case True
  have "0 \<le> n" using n1 by simp
  then show ?thesis using True by (simp add: fpga_moving_integrator_def fpga_state_unfold)
next
  case False
  then have "0 < length samples" by simp
  from fpga_prefix_range [OF n1 B1 rng e1 xs this, of mr]
  obtain r where r: "fpga_moving_integrator samples n mr eb = Inr r"
    "length r = length samples" by blast
  have "r ! k = PyFloat (Finite (exact_quantize n mr eb
                  (sum_list (take (nat n) (rev (take (Suc k) samples))))))"
    if "k < length samples" for k
    using fpga_prefix_range [OF n1 B1 rng e1 xs that, of mr] r(1) by auto
  then have "r = map (\<lambda>k. PyFloat (Finite (exact_quantize n mr eb
                  (sum_list (take (nat n) (rev (take (Suc k) samples)))))))
                [0..<length samples]"
    using r(2) by (intro nth_equalityI) simp_all
  then show ?thesis using r(1) by simp
qed

lemma fl_small:
  assumes x: "x = of_int m * pow2 k" and m: "\<bar>m\<bar> \<le> 2 ^ 53" and k: "- 1074 \<le> k" "k \<le> 900"
  shows "fl x = Finite x"
proof (rule fl_exact [OF x m k(1)])
  have mr: "\<bar>rat_of_int m\<bar> \<le> of_int (2 ^ 53)"
    using m by (simp only: of_int_abs [symmetric] of_int_le_iff)
  have "\<bar>x\<bar> = \<bar>rat_of_int m\<bar> * pow2 k" using pow2_pos [of k] by (simp add: x abs_mult)
  also have "\<dots> \<le> pow2 53 * pow2 k"
    using mr pow2_pos [of k] unfolding pow2_numeral_53 by (simp add: mult_right_mono)
  also have "\<dots> = pow2 (53 + k)" by (simp only: pow2_add)
  also have "\<dots> < pow2 1024" using k(2) by (simp add: pow2_strict_mono)
  finally show "\<bar>x\<bar> < pow2 1024" .
qed

lemma single_sample:
  assumes n: "1 \<le> n" and x: "fl (of_int x) = Finite y" and y: "fl y = Finite y"
    and q: "quantize n mr eb (NpFloat (Finite y)) = Inr v"
  shows "fpga_state [x] n mr eb =
           Inr \<lparr>sreg = PyInt x # replicate (nat n - 1) (NpFloat (Finite 0)),
                acc = NpFloat (Finite y), result = [v]\<rparr>"
proof -
  let ?s0 = "\<lparr>sreg = replicate (nat n) (NpFloat (Finite 0)), acc = PyInt 0, result = []\<rparr>"
  have n0: "0 < nat n" using n by simp
  have ne: "sreg ?s0 \<noteq> []" using n0 by auto
  have l: "last (replicate (nat n) (NpFloat (Finite 0))) = NpFloat (Finite 0)"
    using n0 by simp
  have cx: "int_to_float x = Inr (Finite y)" using x by (simp add: int_to_float_def)
  have c0: "int_to_float 0 = Inr (Finite 0)" using int_to_float_exact [of 0] by simp
  have d: "py_sub (PyInt x) (last (sreg ?s0)) = Inr (NpFloat (Finite y))"
    using cx y by (simp add: l float_op_def f64_sub_def)
  have a: "py_add (acc ?s0) (NpFloat (Finite y)) = Inr (NpFloat (Finite y))"
    using c0 y by (simp add: float_op_def)
  have "butlast (replicate (nat n) (NpFloat (Finite 0)))
          = replicate (nat n - 1) (NpFloat (Finite 0))"
    by (simp add: butlast_conv_take min_def)
  then have "step n mr eb ?s0 x =
          Inr \<lparr>sreg = PyInt x # replicate (nat n - 1) (NpFloat (Finite 0)),
               acc = NpFloat (Finite y), result = [v]\<rparr>"
    using step_unfold [OF ne d a q] by simp
  then show ?thesis using n by (simp add: fpga_state_unfold)
qed

lemma quantize_eval:
  assumes n: "1 \<le> n" "n \<le> 2 ^ 53" and eb: "0 \<le> eb" "eb \<le> 53"
    and mean: "fl (a / of_int n) = Finite q"
    and scaled: "fl (q * pow2 eb) = Finite t"
    and final: "fl (of_int (if mr then py_round t else \<lfloor>t\<rfloor>) / pow2 eb) = Finite v"
  shows "quantize n mr eb (NpFloat (Finite a)) = Inr (PyFloat (Finite v))"
proof -
  have "\<bar>n\<bar> \<le> 2 ^ 53" using n by simp
  then have cn: "int_to_float n = Inr (Finite (of_int n))" by (rule int_to_float_exact)
  have n0: "rat_of_int n \<noteq> 0" using n by simp
  have m: "py_truediv (NpFloat (Finite a)) (PyInt n) = Inr (NpFloat (Finite q))"
    using cn n0 mean by simp
  have p: "py_pow2 eb = Inr (PyInt (2 ^ nat eb))" using eb(1) by (rule py_pow2_nonneg)
  have pe: "pow2 eb = of_int (2 ^ nat eb)" using eb(1) by (simp add: pow2_nat)
  have "\<bar>(2::int) ^ nat eb\<bar> \<le> 2 ^ 53" using nat_pow_le_53 [OF eb] by simp
  then have cp: "int_to_float (2 ^ nat eb) = Inr (Finite (of_int (2 ^ nat eb)))"
    by (rule int_to_float_exact)
  have sc: "py_mul (NpFloat (Finite q)) (PyInt (2 ^ nat eb)) = Inr (NpFloat (Finite t))"
    using cp scaled by (simp add: float_op_def pe)
  define Q where "Q = (if mr then py_round t else \<lfloor>t\<rfloor>)"
  define r where "r = (if mr then PyInt Q else NpFloat (Finite (of_int Q)))"
  have rnd: "(if mr then builtin_round (NpFloat (Finite t)) else np_floor (NpFloat (Finite t)))
               = Inr r"
    by (simp add: Q_def r_def np_floor_def)
  have rq: "py_int r = Inr Q" by (simp add: r_def trunc0_def)
  have fin: "py_truediv (PyInt Q) (PyInt (2 ^ nat eb)) = Inr (PyFloat (Finite v))"
    using final by (simp add: Q_def pe)
  show ?thesis unfolding quantize_def by (simp only: m p sc rnd rq fin py_bind_Inr)
qed

lemma quantize_overflow:
  assumes n: "1 \<le> n" "n \<le> 2 ^ 53" and eb: "1024 \<le> eb"
  shows "quantize n mr eb (NpFloat (Finite 0)) = Inl OverflowError"
proof -
  have "\<bar>n\<bar> \<le> 2 ^ 53" using n by simp
  then have cn: "int_to_float n = Inr (Finite (of_int n))" by (rule int_to_float_exact)
  have n0: "rat_of_int n \<noteq> 0" using n by simp
  have m: "py_truediv (NpFloat (Finite 0)) (PyInt n) = Inr (NpFloat (Finite 0))"
    using cn n0 by simp
  have e0: "0 \<le> eb" using eb by simp
  have p: "py_pow2 eb = Inr (PyInt (2 ^ nat eb))" using e0 by (rule py_pow2_nonneg)
  have "pow2 1024 \<le> pow2 eb" using eb by (rule pow2_mono)
  then have "pow2 1024 \<le> rat_of_int (2 ^ nat eb)" using e0 by (simp only: pow2_nat)
  then have "fl (rat_of_int (2 ^ nat eb)) = PosInf" by (rule fl_overflow)
  then have "int_to_float (2 ^ nat eb) = Inl OverflowError" by (simp add: int_to_float_def)
  then have sc: "py_mul (NpFloat (Finite 0)) (PyInt (2 ^ nat eb)) = Inl OverflowError"
    by (simp add: float_op_def)
  show ?thesis unfolding quantize_def by (simp only: m p sc py_bind_Inr py_bind_Inl)
qed

lemma zero_overflow:
  assumes n: "1 \<le> n" "n \<le> 2 ^ 53" and eb: "1024 \<le> eb"
  shows "fpga_moving_integrator (0 # xs) n mr eb = Inl OverflowError"
proof -
  let ?s0 = "\<lparr>sreg = replicate (nat n) (NpFloat (Finite 0)), acc = PyInt 0, result = []\<rparr>"
  have n0: "0 < nat n" using n by simp
  have l: "last (replicate (nat n) (NpFloat (Finite 0))) = NpFloat (Finite 0)"
    using n0 by simp
  have ne: "replicate (nat n) (NpFloat (Finite 0)) \<noteq> []" using n0 by auto
  have c0: "int_to_float 0 = Inr (Finite 0)" using int_to_float_exact [of 0] by simp
  have "step n mr eb ?s0 0 = Inl OverflowError"
    using ne l c0 quantize_overflow [OF n eb, of mr]
    by (simp add: step_def deque_pop_def float_op_def f64_sub_def)
  then show ?thesis using n by (simp add: fpga_moving_integrator_def fpga_state_unfold)
qed

section \<open>The claims\<close>

subsection \<open>Truncate mode\<close>

text \<open>Claim C1, amended. Let \<open>integration \<ge> 1\<close>, \<open>extra_bits \<ge> -900\<close>, every sample of
  magnitude at most \<open>B\<close> (with \<open>B \<ge> 1\<close>) and
  \<open>integration * B * 2^max(extra_bits, 0) < 2^52\<close>. With \<^verbatim>\<open>math_round=False\<close> the function
  returns one value per sample, and the value at index \<open>k\<close> is the float
  \<open>\<lfloor>A / integration * 2^extra_bits\<rfloor> / 2^extra_bits\<close>, where the accumulator \<open>A\<close> of the state
  after sample \<open>k\<close> (from which the loop goes on with the remaining samples) is the exact
  sum of the last \<open>integration\<close> samples up to index \<open>k\<close>: the floor, toward minus
  infinity, of the exact scaled value, divided by \<open>2^extra_bits\<close> afterwards.\<close>

theorem truncate_output_is_floor:
  assumes "1 \<le> integration" and "1 \<le> B"
    and "integration * B * 2 ^ nat extra_bits < 2 ^ 52" and "- 900 \<le> extra_bits"
    and "\<forall>x\<in>set samples. \<bar>x\<bar> \<le> B" and "k < length samples"
  shows "\<exists>s A r. fpga_state (take (Suc k) samples) integration False extra_bits = Inr s
           \<and> fpga_state samples integration False extra_bits
               = run integration False extra_bits (drop (Suc k) samples) s
           \<and> A = sum_list (take (nat integration) (rev (take (Suc k) samples)))
           \<and> acc s = NpFloat (Finite (of_int A))
           \<and> fpga_moving_integrator samples integration False extra_bits = Inr r
           \<and> length r = length samples
           \<and> r ! k = PyFloat (Finite
                 (of_int \<lfloor>of_int A / of_int integration * pow2 extra_bits\<rfloor>
                    / pow2 extra_bits))"
proof -
  from fpga_prefix_range [OF assms, of False]
  obtain s r where sr:
    "fpga_state (take (Suc k) samples) integration False extra_bits = Inr s"
    "acc s = NpFloat (Finite (of_int
               (sum_list (take (nat integration) (rev (take (Suc k) samples))))))"
    "fpga_moving_integrator samples integration False extra_bits = Inr r"
    "length r = length samples"
    "r ! k = PyFloat (Finite (exact_quantize integration False extra_bits
               (sum_list (take (nat integration) (rev (take (Suc k) samples))))))"
    by blast
  have sp: "fpga_state samples integration False extra_bits
              = run integration False extra_bits (drop (Suc k) samples) s"
    by (rule fpga_state_split [OF sr(1)])
  show ?thesis using sr sp by (simp add: exact_quantize_def)
qed

theorem truncate_output_is_floor_witness:
  "(1::int) \<le> 4 \<and> (1::int) \<le> 3 \<and> (4::int) * 3 * 2 ^ nat 1 < 2 ^ 52 \<and> - 900 \<le> (1::int)
   \<and> \<bar>- 1::int\<bar> \<le> 3 \<and> \<bar>2::int\<bar> \<le> 3 \<and> \<bar>- 3::int\<bar> \<le> 3 \<and> (0::nat) < length [- 1, 2, - 3::int]
   \<and> (\<exists>s A r. fpga_state (take (Suc 0) [- 1, 2, - 3]) 4 False 1 = Inr s
           \<and> fpga_state [- 1, 2, - 3] 4 False 1 = run 4 False 1 (drop (Suc 0) [- 1, 2, - 3]) s
           \<and> A = sum_list (take (nat 4) (rev (take (Suc 0) [- 1, 2, - 3])))
           \<and> acc s = NpFloat (Finite (of_int A))
           \<and> fpga_moving_integrator [- 1, 2, - 3] 4 False 1 = Inr r
           \<and> length r = length [- 1, 2, - 3::int]
           \<and> r ! 0 = PyFloat (Finite (of_int \<lfloor>of_int A / of_int 4 * pow2 1\<rfloor> / pow2 1)))"
  using truncate_output_is_floor [of 4 3 1 "[- 1, 2, - 3]" 0] by simp

text \<open>Outside that range the function floors the binary64 quotient, not the exact one: on
  the single sample \<open>13510798882111490\<close> with \<open>integration = 3\<close> it returns
  \<open>4503599627370497\<close>, one more than the floor of the exact mean.\<close>

lemma big_sample:
  "fl (rat_of_int 13510798882111490) = Finite 13510798882111490"
proof (rule fl_small [of _ 6755399441055745 1, THEN trans])
  show "rat_of_int 13510798882111490 = of_int 6755399441055745 * pow2 1" by (simp add: pow2_1)
qed simp_all

lemma fl_numeral_int:
  "\<bar>numeral w :: int\<bar> \<le> 2 ^ 53 \<Longrightarrow> fl (numeral w) = Finite (numeral w)"
  using fl_int [of "numeral w"] by simp

lemma floor_rat_numeral:
  "\<lfloor>numeral a / numeral b :: rat\<rfloor> = numeral a div numeral b"
  by (metis floor_divide_of_int_eq of_int_numeral)

lemma big_mean:
  "fl (13510798882111490 / 3) = Finite 4503599627370497"
proof -
  have "fl (13510798882111490 / 3)
          = Finite (of_int (py_round (13510798882111490 / 3 / pow2 (52 - 52))) * pow2 (52 - 52))"
    by (rule fl_normal(1)) (simp_all add: pow2_def)
  then show ?thesis by (simp add: pow2_0 py_round_def Let_def floor_rat_numeral)
qed

theorem truncate_output_is_floor_counterexample:
  "fpga_moving_integrator [13510798882111490] 3 False 0
     = Inr [PyFloat (Finite 4503599627370497)]
   \<and> of_int \<lfloor>rat_of_int 13510798882111490 / of_int 3 * pow2 0\<rfloor> / pow2 0
       = (4503599627370496::rat)"
proof -
  have q: "quantize 3 False 0 (NpFloat (Finite 13510798882111490))
             = Inr (PyFloat (Finite 4503599627370497))"
    by (rule quantize_eval [where q = 4503599627370497 and t = 4503599627370497])
       (simp_all add: big_mean pow2_0 fl_numeral_int)
  have y: "fl 13510798882111490 = Finite 13510798882111490" using big_sample by simp
  have "fpga_state [13510798882111490] 3 False 0 =
          Inr \<lparr>sreg = PyInt 13510798882111490 # replicate (nat 3 - 1) (NpFloat (Finite 0)),
               acc = NpFloat (Finite 13510798882111490),
               result = [PyFloat (Finite 4503599627370497)]\<rparr>"
    by (rule single_sample) (simp_all add: y q)
  then show ?thesis by (simp add: fpga_moving_integrator_def pow2_0 floor_rat_numeral)
qed

text \<open>The module's own example input.\<close>

lemma example_exact:
  "map (\<lambda>k. PyFloat (Finite (exact_quantize 4 False 0
          (sum_list (take (nat 4) (rev (take (Suc k) [1, 2, 3, 4, 5, 6, 7, 8])))))))
       [0..<length [1, 2, 3, 4, 5, 6, 7, 8::int]]
     = map (\<lambda>x. PyFloat (Finite x)) [0, 0, 1, 2, 3, 4, 5, 6]"
  by code_simp

text \<open>Claim C2, amended. On the samples 1 to 8 with \<open>integration = 4\<close>, truncation and no
  extra bits, the function returns the floats \<open>[0, 0, 1, 2, 3, 4, 5, 6]\<close>: after the third
  sample the accumulator is \<open>6\<close> and \<open>\<lfloor>6 / 4\<rfloor> = 1\<close>.\<close>

theorem example_truncate_sequence:
  "fpga_moving_integrator [1, 2, 3, 4, 5, 6, 7, 8] 4 False 0
     = Inr (map (\<lambda>x. PyFloat (Finite x)) [0, 0, 1, 2, 3, 4, 5, 6])"
proof -
  have "fpga_moving_integrator [1, 2, 3, 4, 5, 6, 7, 8] 4 False 0 =
          Inr (map (\<lambda>k. PyFloat (Finite (exact_quantize 4 False 0
                 (sum_list (take (nat 4) (rev (take (Suc k) [1, 2, 3, 4, 5, 6, 7, 8])))))))
               [0..<length [1, 2, 3, 4, 5, 6, 7, 8::int]])"
    by (rule fpga_exact_range [of 4 8 0]) simp_all
  then show ?thesis by (simp only: example_exact)
qed

text \<open>The sequence \<open>[0, 0, 0, 2, 3, 4, 5, 6]\<close> is not what the function returns.\<close>

theorem example_truncate_sequence_counterexample:
  "fpga_moving_integrator [1, 2, 3, 4, 5, 6, 7, 8] 4 False 0
     \<noteq> Inr (map (\<lambda>x. PyFloat (Finite x)) [0, 0, 0, 2, 3, 4, 5, 6])"
proof -
  have "fpga_moving_integrator [1, 2, 3, 4, 5, 6, 7, 8] 4 False 0 =
          Inr (map (\<lambda>k. PyFloat (Finite (exact_quantize 4 False 0
                 (sum_list (take (nat 4) (rev (take (Suc k) [1, 2, 3, 4, 5, 6, 7, 8])))))))
               [0..<length [1, 2, 3, 4, 5, 6, 7, 8::int]])"
    by (rule fpga_exact_range [of 4 8 0]) simp_all
  then have "fpga_moving_integrator [1, 2, 3, 4, 5, 6, 7, 8] 4 False 0
               = Inr (map (\<lambda>x. PyFloat (Finite x)) [0, 0, 1, 2, 3, 4, 5, 6])"
    by (simp only: example_exact)
  then show ?thesis by simp
qed

subsection \<open>Errors and lengths\<close>

text \<open>Claim C4, amended. With \<open>integration = 0\<close>, \<^verbatim>\<open>moving_integrator\<close> fails on every sample
  sequence with the \<^verbatim>\<open>ValueError\<close> of the convolution, and \<^verbatim>\<open>fpga_moving_integrator\<close>
  fails on every non-empty sample sequence with the \<^verbatim>\<open>IndexError\<close> of popping the empty
  shift register at the first sample, returning nothing; on the empty sample sequence
  \<^verbatim>\<open>fpga_moving_integrator\<close> returns the empty list.\<close>

theorem zero_integration_behaviour:
  "moving_integrator samples 0 trim_output = Inl ValueError
   \<and> fpga_moving_integrator (sample # samples') 0 math_round extra_bits = Inl IndexError
   \<and> fpga_moving_integrator [] 0 math_round extra_bits = Inr []"
  by (simp add: moving_integrator_def np_ones_def np_convolve_def
        fpga_moving_integrator_def fpga_state_unfold step_empty)

text \<open>With \<open>integration = 0\<close> and no samples, \<^verbatim>\<open>fpga_moving_integrator\<close> does not fail.\<close>

theorem zero_integration_counterexample: "fpga_moving_integrator [] 0 False 0 = Inr []"
  by (simp add: fpga_moving_integrator_def fpga_state_unfold)

text \<open>Claim C8. For a non-empty sample sequence and \<open>integration \<ge> 1\<close>,
  \<^verbatim>\<open>moving_integrator\<close> returns \<open>len(samples) + integration - 1\<close> values when
  \<^verbatim>\<open>trim_output\<close> is false and \<open>len(samples)\<close> values when it is true.\<close>

theorem moving_integrator_length:
  assumes "samples \<noteq> []" and "1 \<le> integration"
  shows "(\<exists>r. moving_integrator samples integration False = Inr r
            \<and> int (length r) = int (length samples) + integration - 1)
       \<and> (\<exists>r. moving_integrator samples integration True = Inr r
            \<and> length r = length samples)"
  using assms
  by (auto simp add: moving_integrator_def np_ones_def np_convolve_def)

theorem moving_integrator_length_witness:
  "[1, 2, 3::rat] \<noteq> [] \<and> (1::int) \<le> 2 \<and>
   (\<exists>r. moving_integrator [1, 2, 3] 2 False = Inr r
            \<and> int (length r) = int (length [1, 2, 3::rat]) + 2 - 1)
       \<and> (\<exists>r. moving_integrator [1, 2, 3] 2 True = Inr r
            \<and> length r = length [1, 2, 3::rat])"
  using moving_integrator_length [of "[1, 2, 3]" 2] by simp

text \<open>Claim C9, amended. For \<open>integration \<ge> 1\<close>, \<^verbatim>\<open>moving_integrator\<close> on the empty sample
  sequence fails with the \<^verbatim>\<open>ValueError\<close> of the convolution, whatever \<^verbatim>\<open>trim_output\<close> is.\<close>

theorem moving_integrator_empty_fails:
  assumes "1 \<le> integration"
  shows "moving_integrator [] integration trim_output = Inl ValueError"
  using assms by (simp add: moving_integrator_def np_ones_def np_convolve_def)

theorem moving_integrator_empty_fails_witness:
  "(1::int) \<le> 4 \<and> moving_integrator [] 4 False = Inl ValueError"
  using moving_integrator_empty_fails [of 4 False] by simp

text \<open>On no samples with \<open>integration = 1\<close> the result is the error, not the empty list.\<close>

theorem moving_integrator_empty_counterexample: "moving_integrator [] 1 True = Inl ValueError"
  by (simp add: moving_integrator_def np_ones_def np_convolve_def)

subsection \<open>The window and the accumulator\<close>

lemma ival_sum_zero: "\<forall>y\<in>set w. ival y = 0 \<Longrightarrow> sum_list (map ival w) = 0"
  by (induction w) auto




text \<open>Outside that range the accumulator is the rounded sum: with \<open>integration = 1\<close> the
  sample \<open>2^53 + 1\<close> is in the shift register and the accumulator is \<open>2^53\<close>.\<close>

lemma fl_odd_53: "fl (rat_of_int 9007199254740993) = Finite 9007199254740992"
proof -
  have "fl (rat_of_int 9007199254740993)
          = Finite (of_int (py_round (rat_of_int 9007199254740993 / pow2 (53 - 52)))
                    * pow2 (53 - 52))"
    by (rule fl_normal(1)) (simp_all add: pow2_def)
  then show ?thesis by (simp add: pow2_1 py_round_def Let_def floor_rat_numeral)
qed


lemma take_rev_replicate:
  "a \<le> j \<Longrightarrow> take a (rev (replicate j v)) = replicate a v"
  by (simp add: min_def)

lemma constant_window:
  assumes "nat n \<le> Suc k"
  shows "sum_list (take (nat n) (rev (replicate (Suc k) v))) = v * int (nat n)"
  by (simp only: take_rev_replicate [OF assms]) (simp add: sum_list_replicate)



text \<open>Outside that range neither holds: with \<open>integration = 1\<close> and \<open>v = 2^54 + 2\<close> the
  accumulator and the value returned are \<open>2^54\<close>.\<close>

lemma fl_tie_54: "fl (rat_of_int 18014398509481986) = Finite 18014398509481984"
proof -
  have "fl (rat_of_int 18014398509481986)
          = Finite (of_int (py_round (rat_of_int 18014398509481986 / pow2 (54 - 52)))
                    * pow2 (54 - 52))"
    by (rule fl_normal(1)) (simp_all add: pow2_def)
  then show ?thesis by (simp add: pow2_def py_round_def Let_def floor_rat_numeral)
qed

lemma fl_pow_54: "fl 18014398509481984 = Finite 18014398509481984"
proof -
  have "fl (18014398509481984::rat) = Finite 18014398509481984"
    by (rule fl_small [of _ 4503599627370496 2]) (simp_all add: pow2_def)
  then show ?thesis .
qed





subsection \<open>Round mode\<close>

text \<open>Claim C7. For any samples, \<open>integration\<close> and \<open>extra_bits\<close>: whenever the function
  returns in both modes, each result has one value per sample and each value of the
  truncate mode is at most (Python's \<^verbatim>\<open><=\<close>) the value of the round mode at the same
  index.\<close>

theorem truncate_le_round:
  assumes "fpga_moving_integrator samples integration False extra_bits = Inr rt"
    and "fpga_moving_integrator samples integration True extra_bits = Inr rr"
  shows "length rt = length samples \<and> length rr = length samples
       \<and> (\<forall>k<length samples. f64_le (value_of (rt ! k)) (value_of (rr ! k)))"
proof -
  from assms(1) obtain z t1 where t1: "np_zeros integration = Inr z"
    "run integration False extra_bits samples
       \<lparr>sreg = map (\<lambda>x. NpFloat (Finite x)) z, acc = PyInt 0, result = []\<rparr> = Inr t1"
    "rt = result t1"
    by (auto simp: fpga_moving_integrator_def fpga_state_def py_bind_eq_Inr)
  from assms(2) t1(1) obtain t2 where t2:
    "run integration True extra_bits samples
       \<lparr>sreg = map (\<lambda>x. NpFloat (Finite x)) z, acc = PyInt 0, result = []\<rparr> = Inr t2"
    "rr = result t2"
    by (auto simp: fpga_moving_integrator_def fpga_state_def py_bind_eq_Inr)
  from run_le [OF t1(2) t2(1)]
  have rel: "list_all2 (\<lambda>v1 v2. f64_le (value_of v1) (value_of v2)) rt rr"
    and len: "length rt = length samples"
    by (simp_all add: t1(3) t2(2))
  have "length rr = length samples" using rel len by (simp add: list_all2_lengthD [symmetric])
  moreover have "\<forall>k<length samples. f64_le (value_of (rt ! k)) (value_of (rr ! k))"
    using rel len by (simp add: list_all2_conv_all_nth)
  ultimately show ?thesis using len by simp
qed

lemma order_example_floor:
  "map (\<lambda>k. PyFloat (Finite (exact_quantize 4 False 1
          (sum_list (take (nat 4) (rev (take (Suc k) [1, - 2, 3])))))))
       [0..<length [1, - 2, 3::int]]
     = map (\<lambda>x. PyFloat (Finite x)) [0, - (1 / 2), 1 / 2]"
  by code_simp

lemma order_example_round:
  "map (\<lambda>k. PyFloat (Finite (exact_quantize 4 True 1
          (sum_list (take (nat 4) (rev (take (Suc k) [1, - 2, 3])))))))
       [0..<length [1, - 2, 3::int]]
     = map (\<lambda>x. PyFloat (Finite x)) [0, 0, 1 / 2]"
  by code_simp

theorem truncate_le_round_witness:
  "fpga_moving_integrator [1, - 2, 3] 4 False 1
     = Inr (map (\<lambda>x. PyFloat (Finite x)) [0, - (1 / 2), 1 / 2])
   \<and> fpga_moving_integrator [1, - 2, 3] 4 True 1
       = Inr (map (\<lambda>x. PyFloat (Finite x)) [0, 0, 1 / 2])
   \<and> length (map (\<lambda>x. PyFloat (Finite x)) [0, - (1 / 2), 1 / 2]) = length [1, - 2, 3::int]
   \<and> length (map (\<lambda>x. PyFloat (Finite x)) [0, 0, 1 / 2]) = length [1, - 2, 3::int]
   \<and> f64_le (value_of (map (\<lambda>x. PyFloat (Finite x)) [0, - (1 / 2), 1 / 2] ! 0))
             (value_of (map (\<lambda>x. PyFloat (Finite x)) [0, 0, 1 / 2] ! 0))
   \<and> f64_le (value_of (map (\<lambda>x. PyFloat (Finite x)) [0, - (1 / 2), 1 / 2] ! 1))
             (value_of (map (\<lambda>x. PyFloat (Finite x)) [0, 0, 1 / 2] ! 1))
   \<and> f64_le (value_of (map (\<lambda>x. PyFloat (Finite x)) [0, - (1 / 2), 1 / 2] ! 2))
             (value_of (map (\<lambda>x. PyFloat (Finite x)) [0, 0, 1 / 2] ! 2))"
proof -
  have "fpga_moving_integrator [1, - 2, 3] 4 False 1 =
          Inr (map (\<lambda>k. PyFloat (Finite (exact_quantize 4 False 1
                 (sum_list (take (nat 4) (rev (take (Suc k) [1, - 2, 3])))))))
               [0..<length [1, - 2, 3::int]])"
    by (rule fpga_exact_range [of 4 3 1]) simp_all
  then have h1: "fpga_moving_integrator [1, - 2, 3] 4 False 1
                   = Inr (map (\<lambda>x. PyFloat (Finite x)) [0, - (1 / 2), 1 / 2])"
    by (simp only: order_example_floor)
  have "fpga_moving_integrator [1, - 2, 3] 4 True 1 =
          Inr (map (\<lambda>k. PyFloat (Finite (exact_quantize 4 True 1
                 (sum_list (take (nat 4) (rev (take (Suc k) [1, - 2, 3])))))))
               [0..<length [1, - 2, 3::int]])"
    by (rule fpga_exact_range [of 4 3 1]) simp_all
  then have h2: "fpga_moving_integrator [1, - 2, 3] 4 True 1
                   = Inr (map (\<lambda>x. PyFloat (Finite x)) [0, 0, 1 / 2])"
    by (simp only: order_example_round)
  from truncate_le_round [OF h1 h2] show ?thesis using h1 h2 by simp
qed

text \<open>Claim C10, amended. Let \<open>integration \<ge> 1\<close>, \<open>extra_bits \<ge> -900\<close>, every sample of
  magnitude at most \<open>B\<close> (with \<open>B \<ge> 1\<close>) and
  \<open>integration * B * 2^max(extra_bits, 0) < 2^52\<close>. With \<^verbatim>\<open>math_round=True\<close> the value at
  index \<open>k\<close> is the float \<open>q / 2^extra_bits\<close> for an integer \<open>q\<close> that is nearest to the exact
  scaled value \<open>A / integration * 2^extra_bits\<close> (no integer is nearer), \<open>A\<close> being the
  accumulator, and that is even whenever the scaled value lies exactly half-way between
  two integers.\<close>

theorem round_output_half_even:
  assumes "1 \<le> integration" and "1 \<le> B"
    and "integration * B * 2 ^ nat extra_bits < 2 ^ 52" and "- 900 \<le> extra_bits"
    and "\<forall>x\<in>set samples. \<bar>x\<bar> \<le> B" and "k < length samples"
  shows "\<exists>s A r q. fpga_state (take (Suc k) samples) integration True extra_bits = Inr s
           \<and> A = sum_list (take (nat integration) (rev (take (Suc k) samples)))
           \<and> acc s = NpFloat (Finite (of_int A))
           \<and> fpga_moving_integrator samples integration True extra_bits = Inr r
           \<and> length r = length samples
           \<and> r ! k = PyFloat (Finite (of_int q / pow2 extra_bits))
           \<and> (\<forall>m. \<bar>of_int A / of_int integration * pow2 extra_bits - of_int q\<bar>
                  \<le> \<bar>of_int A / of_int integration * pow2 extra_bits - of_int m\<bar>)
           \<and> (of_int A / of_int integration * pow2 extra_bits
                - of_int \<lfloor>of_int A / of_int integration * pow2 extra_bits\<rfloor> = 1 / 2
                \<longrightarrow> even q)"
proof -
  define A where "A = sum_list (take (nat integration) (rev (take (Suc k) samples)))"
  define X where "X = rat_of_int A / of_int integration * pow2 extra_bits"
  from fpga_prefix_range [OF assms, of True]
  obtain s r where sr:
    "fpga_state (take (Suc k) samples) integration True extra_bits = Inr s"
    "acc s = NpFloat (Finite (of_int A))"
    "fpga_moving_integrator samples integration True extra_bits = Inr r"
    "length r = length samples"
    "r ! k = PyFloat (Finite (exact_quantize integration True extra_bits A))"
    unfolding A_def by blast
  have "r ! k = PyFloat (Finite (of_int (py_round X) / pow2 extra_bits))"
    using sr(5) by (simp add: exact_quantize_def X_def)
  moreover have "\<forall>m. \<bar>X - of_int (py_round X)\<bar> \<le> \<bar>X - of_int m\<bar>"
    by (simp add: py_round_nearest)
  moreover have "X - of_int \<lfloor>X\<rfloor> = 1 / 2 \<longrightarrow> even (py_round X)"
    by (simp add: py_round_tie_even)
  ultimately show ?thesis using sr(1-4) unfolding X_def A_def by blast
qed

theorem round_output_half_even_witness:
  "(1::int) \<le> 4 \<and> (1::int) \<le> 4 \<and> (4::int) * 4 * 2 ^ nat 0 < 2 ^ 52 \<and> - 900 \<le> (0::int)
   \<and> \<bar>1::int\<bar> \<le> 4 \<and> \<bar>2::int\<bar> \<le> 4 \<and> \<bar>3::int\<bar> \<le> 4 \<and> \<bar>4::int\<bar> \<le> 4 \<and> (3::nat) < length [1, 2, 3, 4::int]
   \<and> (\<exists>s A r q. fpga_state (take (Suc 3) [1, 2, 3, 4]) 4 True 0 = Inr s
           \<and> A = sum_list (take (nat 4) (rev (take (Suc 3) [1, 2, 3, 4])))
           \<and> acc s = NpFloat (Finite (of_int A))
           \<and> fpga_moving_integrator [1, 2, 3, 4] 4 True 0 = Inr r
           \<and> length r = length [1, 2, 3, 4::int]
           \<and> r ! 3 = PyFloat (Finite (of_int q / pow2 0))
           \<and> (\<forall>m. \<bar>of_int A / of_int 4 * pow2 0 - of_int q\<bar>
                  \<le> \<bar>of_int A / of_int 4 * pow2 0 - of_int m\<bar>)
           \<and> (of_int A / of_int 4 * pow2 0 - of_int \<lfloor>of_int A / of_int 4 * pow2 0\<rfloor> = 1 / 2
                \<longrightarrow> even q))"
  using round_output_half_even [of 4 4 0 "[1, 2, 3, 4]" 3] by simp

text \<open>Outside that range the function rounds the binary64 quotient, and a value that is no
  tie can be rounded as one: on the single sample \<open>6755399441055748\<close> with
  \<open>integration = 3\<close> it returns \<open>2251799813685250\<close>, and \<open>2251799813685249\<close> is nearer to the
  exact mean.\<close>

lemma third_mean:
  "fl (6755399441055748 / 3) = Finite (4503599627370499 / 2)"
proof -
  have "fl (6755399441055748 / 3)
          = Finite (of_int (py_round (6755399441055748 / 3 / pow2 (51 - 52))) * pow2 (51 - 52))"
    by (rule fl_normal(1)) (simp_all add: pow2_def)
  then show ?thesis by (simp add: pow2_def py_round_def Let_def floor_rat_numeral)
qed

lemma half_exact:
  "fl (4503599627370499 / 2) = Finite (4503599627370499 / 2)"
  by (rule fl_small [of _ 4503599627370499 "- 1"]) (simp_all add: pow2_def)

theorem round_output_half_even_counterexample:
  "fpga_moving_integrator [6755399441055748] 3 True 0
     = Inr [PyFloat (Finite 2251799813685250)]
   \<and> \<bar>rat_of_int 6755399441055748 / of_int 3 * pow2 0 - of_int 2251799813685249\<bar>
       < \<bar>rat_of_int 6755399441055748 / of_int 3 * pow2 0 - of_int 2251799813685250\<bar>"
proof -
  have q: "quantize 3 True 0 (NpFloat (Finite 6755399441055748))
             = Inr (PyFloat (Finite 2251799813685250))"
    by (rule quantize_eval [where q = "4503599627370499 / 2" and t = "4503599627370499 / 2"])
       (simp_all add: third_mean half_exact pow2_0 fl_numeral_int py_round_def Let_def
          floor_rat_numeral)
  have "fpga_state [6755399441055748] 3 True 0 =
          Inr \<lparr>sreg = PyInt 6755399441055748 # replicate (nat 3 - 1) (NpFloat (Finite 0)),
               acc = NpFloat (Finite 6755399441055748),
               result = [PyFloat (Finite 2251799813685250)]\<rparr>"
    by (rule single_sample) (simp_all add: q fl_numeral_int)
  then show ?thesis by (simp add: fpga_moving_integrator_def pow2_0)
qed

end
